theory Spec2Isabelle
  imports Main
begin

section \<open>Strings\<close>

text \<open>
  A \<^typ>\<open>string\<close> stands for a JavaScript string whose UTF-16 code units are all
  below 256; a \<^typ>\<open>char\<close> is one such code unit.
\<close>

abbreviation newline :: char where
  \<open>newline \<equiv> CHR 0x0A\<close>

text \<open>
  The regular expression class \<^verbatim>\<open>\s\<close>, which is also the set of characters that
  \<^verbatim>\<open>String.prototype.trim\<close> strips: tab, line feed, vertical tab, form feed,
  carriage return, space and no-break space (the members below 256).
\<close>

definition isWhitespace :: \<open>char \<Rightarrow> bool\<close> where
  \<open>isWhitespace c \<longleftrightarrow>
     c \<in> set [CHR 0x09, CHR 0x0A, CHR 0x0B, CHR 0x0C, CHR 0x0D, CHR 0x20, CHR 0xA0]\<close>

text \<open>\<^verbatim>\<open>s.trim()\<close>\<close>

definition trim :: \<open>string \<Rightarrow> string\<close> where
  \<open>trim s = rev (dropWhile isWhitespace (rev (dropWhile isWhitespace s)))\<close>

text \<open>
  \<^verbatim>\<open>s.replace(/\s+/g, ' ')\<close>: every maximal run of whitespace becomes one space.
  The flag says whether the previous character belonged to a run already replaced.
\<close>

fun collapseRuns :: \<open>bool \<Rightarrow> string \<Rightarrow> string\<close> where
  \<open>collapseRuns inRun [] = []\<close>
| \<open>collapseRuns inRun (c # cs) =
     (if isWhitespace c
      then (if inRun then collapseRuns True cs else CHR '' '' # collapseRuns True cs)
      else c # collapseRuns False cs)\<close>

definition replaceWhitespaceRuns :: \<open>string \<Rightarrow> string\<close> where
  \<open>replaceWhitespaceRuns s = collapseRuns False s\<close>

text \<open>\<^verbatim>\<open>/^\s?$/.test(s)\<close>: the string is empty or is a single whitespace character.\<close>

definition matchesOptionalWhitespace :: \<open>string \<Rightarrow> bool\<close> where
  \<open>matchesOptionalWhitespace s \<longleftrightarrow>
     (case s of [] \<Rightarrow> True | [c] \<Rightarrow> isWhitespace c | _ \<Rightarrow> False)\<close>


section \<open>The indent-tracking writer\<close>

text \<open>
  Modelled from the spec: \<^verbatim>\<open>utils/IndentedWriter.ts\<close> is imported by the emitter but is not
  among the sources. Section 4.1 of the specification gives its contract: it accumulates
  output text, appends literal text, appends a full line plus newline, forces a fresh line
  only when the cursor is not at column 0, forces one blank line between prior content and
  what follows, pushes and pops one indentation level (text written in between is prefixed
  per line by the indent string), and shows the last character written. No operation fails.

  The writer only accumulates: \<open>buffer\<close> is the text written so far. A line receives its
  indentation when its first character other than a newline is written.
\<close>

record indentedWriter =
  buffer :: string
  indentLevel :: nat
  indentPrefix :: string

definition indentText :: \<open>indentedWriter \<Rightarrow> string\<close> where
  \<open>indentText w = concat (replicate (indentLevel w) (indentPrefix w))\<close>

text \<open>Modelled from the spec: the cursor is at column 0.\<close>

definition atLineStart :: \<open>indentedWriter \<Rightarrow> bool\<close> where
  \<open>atLineStart w \<longleftrightarrow> buffer w = [] \<or> last (buffer w) = newline\<close>

definition writeChar :: \<open>indentedWriter \<Rightarrow> char \<Rightarrow> indentedWriter\<close> where
  \<open>writeChar w c =
     (if c \<noteq> newline \<and> atLineStart w
      then w\<lparr>buffer := buffer w @ indentText w @ [c]\<rparr>
      else w\<lparr>buffer := buffer w @ [c]\<rparr>)\<close>

text \<open>Modelled from the spec: \<^verbatim>\<open>write(message)\<close> appends literal text.\<close>

definition write_text :: \<open>indentedWriter \<Rightarrow> string \<Rightarrow> indentedWriter\<close> where
  \<open>write_text w message = foldl writeChar w message\<close>

text \<open>
  Modelled from the spec: \<^verbatim>\<open>writeLine(message = '')\<close> appends a full line plus newline.
\<close>

definition writeLine :: \<open>indentedWriter \<Rightarrow> string \<Rightarrow> indentedWriter\<close> where
  \<open>writeLine w message = writeChar (write_text w message) newline\<close>

text \<open>
  Modelled from the spec: \<^verbatim>\<open>ensureNewLine()\<close> forces the cursor to a fresh line only
  if it is not already at column 0.
\<close>

definition ensureNewLine :: \<open>indentedWriter \<Rightarrow> indentedWriter\<close> where
  \<open>ensureNewLine w = (if atLineStart w then w else writeChar w newline)\<close>

text \<open>
  Modelled from the spec: \<^verbatim>\<open>ensureSkippedLine()\<close> forces one blank line separating prior
  content from what follows, and adds none when the content is already followed by a blank
  line. With nothing written yet there is no prior content to separate.
\<close>

definition ensureSkippedLine :: \<open>indentedWriter \<Rightarrow> indentedWriter\<close> where
  \<open>ensureSkippedLine w =
     (if buffer w = [] then w
      else if last (buffer w) \<noteq> newline then writeChar (writeChar w newline) newline
      else if butlast (buffer w) = [] \<or> last (butlast (buffer w)) = newline then w
      else writeChar w newline)\<close>

text \<open>Modelled from the spec: push and pop of one indentation level.\<close>

definition increaseIndent :: \<open>indentedWriter \<Rightarrow> indentedWriter\<close> where
  \<open>increaseIndent w = w\<lparr>indentLevel := Suc (indentLevel w)\<rparr>\<close>

definition decreaseIndent :: \<open>indentedWriter \<Rightarrow> indentedWriter\<close> where
  \<open>decreaseIndent w = w\<lparr>indentLevel := indentLevel w - 1\<rparr>\<close>

text \<open>
  Modelled from the spec: \<^verbatim>\<open>peekLastCharacter()\<close> is the last character written, the
  empty string when nothing has been written.
\<close>

definition peekLastCharacter :: \<open>indentedWriter \<Rightarrow> string\<close> where
  \<open>peekLastCharacter w = (if buffer w = [] then [] else [last (buffer w)])\<close>

text \<open>
  The text ends with an empty line: the cursor is at column 0 and the line before it
  has no character.
\<close>

definition endsWithBlankLine :: \<open>string \<Rightarrow> bool\<close> where
  \<open>endsWithBlankLine s \<longleftrightarrow>
     (case rev s of
        [] \<Rightarrow> False
      | c # before \<Rightarrow> c = newline \<and> (case before of [] \<Rightarrow> True | d # _ \<Rightarrow> d = newline))\<close>


section \<open>The emitter's data\<close>

text \<open>
  \<^verbatim>\<open>IResolveDeclarationReferenceResult\<close> of the API model: two optional fields.
\<close>

record 'item resolveResult =
  resolvedApiItem :: \<open>'item option\<close>
  errorMessage :: \<open>string option\<close>

text \<open>\<^verbatim>\<open>ICustomMarkdownEmitterOptions\<close>\<close>

record 'item emitterOptions =
  contextApiItem :: \<open>'item option\<close>
  onGetFilenameForApiItem :: \<open>'item \<Rightarrow> string option\<close>

text \<open>
  What \<^verbatim>\<open>console.log(colors.yellow(message))\<close> prints: the styling of the external
  \<^verbatim>\<open>colors\<close> package is kept symbolic.
\<close>

datatype consoleLine = Yellow string

text \<open>
  \<^verbatim>\<open>IMarkdownEmitterContext\<close>, together with the console the emitter logs to, so that
  one value holds everything a render call changes.
\<close>

record 'item emitterContext =
  writer :: indentedWriter
  insideTable :: bool
  boldRequested :: bool
  italicRequested :: bool
  options :: \<open>'item emitterOptions\<close>
  console :: \<open>consoleLine list\<close>

text \<open>
  The emitter object and its external collaborators. \<open>resolveDeclarationReference\<close> is
  the API model's resolver, \<open>emitAsTsdoc\<close> the declaration reference's text,
  \<open>getScopedNameWithinPackage\<close> the API item's method, and \<open>getEscapedText\<close> the text
  escaping that the emitter inherits from \<^verbatim>\<open>MarkdownEmitter\<close>. The last two fields are
  the emphasis markers of the base output syntax.
\<close>

record ('ref, 'item) emitter =
  resolveDeclarationReference :: \<open>'ref \<Rightarrow> 'item option \<Rightarrow> 'item resolveResult\<close>
  emitAsTsdoc :: \<open>'ref \<Rightarrow> string\<close>
  getScopedNameWithinPackage :: \<open>'item \<Rightarrow> string\<close>
  getEscapedText :: \<open>string \<Rightarrow> string\<close>
  boldMarker :: string
  italicMarker :: string

text \<open>\<^verbatim>\<open>DocLinkTag\<close>: the display text and the two kinds of destination, each optional.\<close>

record 'ref docLinkTag =
  linkText :: \<open>string option\<close>
  urlDestination :: \<open>string option\<close>
  codeDestination :: \<open>'ref option\<close>

text \<open>
  What a render call can throw: the base emitter's "unsupported node kind", and the
  \<^verbatim>\<open>TypeError\<close> of a method call on \<^verbatim>\<open>undefined\<close>.
\<close>

datatype error = UnsupportedKind | TypeError

text \<open>
  The writer belongs to the context; these apply a writer operation to it. \<open>writeText\<close> is
  \<^verbatim>\<open>context.writer.write(message)\<close> and \<open>writeLn\<close> is \<^verbatim>\<open>writer.writeLine(message)\<close>.
\<close>

definition onWriter ::
  \<open>(indentedWriter \<Rightarrow> indentedWriter) \<Rightarrow> 'item emitterContext \<Rightarrow> 'item emitterContext\<close> where
  \<open>onWriter f ctx = ctx\<lparr>writer := f (writer ctx)\<rparr>\<close>

definition writeLn :: \<open>'item emitterContext \<Rightarrow> string \<Rightarrow> 'item emitterContext\<close> where
  \<open>writeLn ctx message = ctx\<lparr>writer := writeLine (writer ctx) message\<rparr>\<close>

definition writeText :: \<open>'item emitterContext \<Rightarrow> string \<Rightarrow> 'item emitterContext\<close> where
  \<open>writeText ctx message = ctx\<lparr>writer := write_text (writer ctx) message\<rparr>\<close>

definition consoleLog :: \<open>'item emitterContext \<Rightarrow> consoleLine \<Rightarrow> 'item emitterContext\<close> where
  \<open>consoleLog ctx line = ctx\<lparr>console := console ctx @ [line]\<rparr>\<close>


section \<open>Link tags\<close>

text \<open>
  \<^verbatim>\<open>writeLinkTagWithUrlDestination\<close> (CustomHtmlEmitter.ts, lines 177-184). The display
  text is the link text unless that is \<^verbatim>\<open>undefined\<close>. An absent URL makes
  \<^verbatim>\<open>linkText.replace\<close> throw when the link text is absent too, and is printed as
  \<^verbatim>\<open>undefined\<close> by the template string otherwise.
\<close>

definition writeLinkTagWithUrlDestination ::
  \<open>('ref, 'item) emitter \<Rightarrow> 'ref docLinkTag \<Rightarrow> 'item emitterContext \<Rightarrow> error + 'item emitterContext\<close> where
  \<open>writeLinkTagWithUrlDestination E docLinkTag ctx =
     (case (case linkText docLinkTag of Some t \<Rightarrow> Some t | None \<Rightarrow> urlDestination docLinkTag) of
        None \<Rightarrow> Inl TypeError
      | Some text \<Rightarrow>
          (let encodedLinkText = getEscapedText E (replaceWhitespaceRuns text);
               href = (case urlDestination docLinkTag of Some u \<Rightarrow> u | None \<Rightarrow> ''undefined'')
           in Inr (writeText ctx (''<a href="'' @ href @ ''">'' @ encodedLinkText @ ''</a>''))))\<close>

text \<open>
  \<^verbatim>\<open>writeLinkTagWithCodeDestination\<close> (CustomHtmlEmitter.ts, lines 187-219). The method
  is called for a tag that has a code destination (\<^verbatim>\<open>codeDestination!\<close>); on a tag
  without one the reference is \<^verbatim>\<open>undefined\<close> and the call fails. The tests
  \<^verbatim>\<open>if (filename)\<close> and \<^verbatim>\<open>if (result.errorMessage)\<close> hold for a string that is
  defined and not empty, and \<^verbatim>\<open>linkText || ''\<close> is the link text, or the empty string
  when it is \<^verbatim>\<open>undefined\<close>.
\<close>

definition writeLinkTagWithCodeDestination ::
  \<open>('ref, 'item) emitter \<Rightarrow> 'ref docLinkTag \<Rightarrow> 'item emitterContext \<Rightarrow> error + 'item emitterContext\<close> where
  \<open>writeLinkTagWithCodeDestination E docLinkTag ctx =
     (case codeDestination docLinkTag of
        None \<Rightarrow> Inl TypeError
      | Some reference \<Rightarrow>
          (let result = resolveDeclarationReference E reference (contextApiItem (options ctx))
           in case resolvedApiItem result of
                Some item \<Rightarrow>
                  (case onGetFilenameForApiItem (options ctx) item of
                     None \<Rightarrow> Inr ctx
                   | Some filename \<Rightarrow>
                       if filename = [] then Inr ctx
                       else
                         (let linkText0 = (case linkText docLinkTag of Some t \<Rightarrow> t | None \<Rightarrow> []);
                              linkText1 = (if length linkText0 = 0
                                           then getScopedNameWithinPackage E item else linkText0)
                          in if length linkText1 > 0 then
                               (let encodedLinkText =
                                      getEscapedText E (replaceWhitespaceRuns linkText1)
                                in Inr (writeText (writeText (writeText ctx ''['') encodedLinkText)
                                          ('']('' @ filename @ '')'')))
                             else Inr (consoleLog ctx
                                    (Yellow ''WARNING: Unable to determine link text''))))
              | None \<Rightarrow>
                  (case errorMessage result of
                     None \<Rightarrow> Inr ctx
                   | Some message \<Rightarrow>
                       if message = [] then Inr ctx
                       else Inr (consoleLog ctx
                              (Yellow (''WARNING: Unable to resolve reference "''
                                       @ emitAsTsdoc E reference @ ''": '' @ message))))))\<close>


section \<open>Document nodes\<close>

text \<open>
  The node kinds the emitter distinguishes. \<open>EmphasisSpan\<close> carries its bold and italic
  flags and its children, \<open>Heading\<close> its title and level, \<open>NoteBox\<close> its content, \<open>Table\<close>
  its optional header row and its rows. \<open>OtherKind\<close> stands for every kind that neither
  this emitter nor the base emitter handles.
\<close>

datatype 'ref docNode =
    PlainText string
  | Paragraph \<open>'ref docNode list\<close>
  | Section \<open>'ref docNode list\<close>
  | EmphasisSpan bool bool \<open>'ref docNode list\<close>
  | CodeSpan string
  | FencedCode string
  | SoftBreak
  | LinkTag \<open>'ref docLinkTag\<close>
  | Heading string int
  | NoteBox \<open>'ref docNode\<close>
  | Table \<open>'ref docTableRow option\<close> \<open>'ref docTableRow list\<close>
  | OtherKind string
and 'ref docTableRow = DocTableRow (cells: \<open>'ref docTableCell list\<close>)
and 'ref docTableCell = DocTableCell (content: \<open>'ref docNode\<close>)


section \<open>The emitter\<close>

text \<open>The heading's tag (CustomHtmlEmitter.ts, lines 55-62).\<close>

definition headingTag :: \<open>int \<Rightarrow> string\<close> where
  \<open>headingTag level =
     (if level = 1 then ''h2'' else if level = 2 then ''h3'' else if level = 3 then ''h3''
      else ''h4'')\<close>

text \<open>
  The table's column count (CustomHtmlEmitter.ts, lines 93-101): the loop over the rows,
  started from the header's cell count, or from 0 without a header.
\<close>

fun longestRow :: \<open>nat \<Rightarrow> 'ref docTableRow list \<Rightarrow> nat\<close> where
  \<open>longestRow columnCount [] = columnCount\<close>
| \<open>longestRow columnCount (row # rows) =
     longestRow (if length (cells row) > columnCount then length (cells row) else columnCount)
       rows\<close>

definition tableColumnCount :: \<open>'ref docTableRow option \<Rightarrow> 'ref docTableRow list \<Rightarrow> nat\<close> where
  \<open>tableColumnCount header rows =
     longestRow (case header of Some h \<Rightarrow> length (cells h) | None \<Rightarrow> 0) rows\<close>

text \<open>
  Modelled from the spec: the base emitter's plain text (\<^verbatim>\<open>MarkdownEmitter.ts\<close> is not
  among the sources). Section 4.2: the text is escaped for the output syntax and wrapped in
  the syntax's emphasis markers according to the bold and italic flags of the context.
\<close>

definition writePlainText ::
  \<open>('ref, 'item) emitter \<Rightarrow> string \<Rightarrow> 'item emitterContext \<Rightarrow> 'item emitterContext\<close> where
  \<open>writePlainText E text ctx =
     (let bold = (if boldRequested ctx then boldMarker E else []);
          italic = (if italicRequested ctx then italicMarker E else [])
      in writeText ctx (bold @ italic @ getEscapedText E text @ italic @ bold))\<close>

text \<open>
  \<open>writeNode\<close> is \<^verbatim>\<open>CustomHtmlEmitter.writeNode\<close> (lines 48-175), one equation per case
  of its switch; the last equation is the default case, which calls the base emitter.
  \<open>writeHeaderCells\<close> is the loop of lines 107-116, \<open>writeRows\<close> the loop of lines
  121-130 and \<open>writeRowCells\<close> the loop of lines 123-127. An exception thrown while
  rendering a child ends the call, so every step passes an error on.

  The parameter \<^verbatim>\<open>docNodeSiblings\<close> is left out: no case of the switch reads it, and
  every call made here passes the constant \<^verbatim>\<open>false\<close>.
\<close>

text \<open>
  Modelled from the spec: \<open>superWriteNode\<close> and \<open>writeNodes\<close> are the base emitter's
  \<^verbatim>\<open>writeNode\<close> and \<^verbatim>\<open>writeNodes\<close> (\<^verbatim>\<open>MarkdownEmitter.ts\<close> is not among the
  sources); they are part of the same recursion because the base emitter renders children
  through the overriding \<open>writeNode\<close>. Section 4.2: plain text is written escaped with the
  emphasis markers; a paragraph or section ensures a blank line before its children,
  renders them, and ensures a blank line after; a link tag goes to one of the two link
  writers, by the destination it carries (a tag that carries none writes nothing); any
  other kind fails as unsupported. \<open>writeNodes\<close> renders a sequence of siblings in order.
  \<open>superWriteNode\<close> is entered from the default case of \<open>writeNode\<close> only.
\<close>

function (sequential)
  writeNode :: \<open>('ref, 'item) emitter \<Rightarrow> 'ref docNode \<Rightarrow> 'item emitterContext
     \<Rightarrow> error + 'item emitterContext\<close>
  and superWriteNode :: \<open>('ref, 'item) emitter \<Rightarrow> 'ref docNode \<Rightarrow> 'item emitterContext
     \<Rightarrow> error + 'item emitterContext\<close>
  and writeNodes :: \<open>('ref, 'item) emitter \<Rightarrow> 'ref docNode list \<Rightarrow> 'item emitterContext
     \<Rightarrow> error + 'item emitterContext\<close>
  and writeHeaderCells :: \<open>('ref, 'item) emitter \<Rightarrow> 'ref docTableRow option \<Rightarrow> nat \<Rightarrow> nat
     \<Rightarrow> 'item emitterContext \<Rightarrow> error + 'item emitterContext\<close>
  and writeRows :: \<open>('ref, 'item) emitter \<Rightarrow> 'ref docTableRow list \<Rightarrow> 'item emitterContext
     \<Rightarrow> error + 'item emitterContext\<close>
  and writeRowCells :: \<open>('ref, 'item) emitter \<Rightarrow> 'ref docTableCell list \<Rightarrow> 'item emitterContext
     \<Rightarrow> error + 'item emitterContext\<close>
where
  \<open>writeNode E (Heading title level) ctx =
     Inr (writeLn (writeLn ctx (''<'' @ headingTag level @ '' class="doc-heading">''
                     @ getEscapedText E title @ ''</'' @ headingTag level @ ''>'')) [])\<close>
| \<open>writeNode E (NoteBox noteContent) ctx =
     (case writeNode E noteContent
             (writeLn (onWriter increaseIndent (onWriter ensureNewLine ctx)) ''<pre>'') of
        Inl e \<Rightarrow> Inl e
      | Inr ctx1 \<Rightarrow>
          Inr (writeLn (onWriter decreaseIndent
                 (writeLn (onWriter ensureNewLine ctx1) ''</pre>'')) []))\<close>
| \<open>writeNode E (Table header rows) ctx =
     (let ctx1 = (onWriter ensureSkippedLine ctx)\<lparr>insideTable := True\<rparr>;
          columnCount = tableColumnCount header rows;
          ctx2 = writeLn (writeLn (writeLn ctx1 ''<table class="doc-table">'') ''<thead>'')
                   ''<tr>''
      in case writeHeaderCells E header 0 columnCount ctx2 of
           Inl e \<Rightarrow> Inl e
         | Inr ctx3 \<Rightarrow>
             (case writeRows E rows
                     (writeLn (writeLn (writeLn ctx3 []) ''</tr>'') ''</thead>'') of
                Inl e \<Rightarrow> Inl e
              | Inr ctx4 \<Rightarrow> Inr ((writeLn ctx4 ''</table>'')\<lparr>insideTable := False\<rparr>)))\<close>
| \<open>writeNode E (EmphasisSpan bold italic nodes) ctx =
     (case writeNodes E nodes (ctx\<lparr>boldRequested := bold, italicRequested := italic\<rparr>) of
        Inl e \<Rightarrow> Inl e
      | Inr ctx1 \<Rightarrow>
          Inr (ctx1\<lparr>boldRequested := boldRequested ctx,
                    italicRequested := italicRequested ctx\<rparr>))\<close>
| \<open>writeNode E (CodeSpan code) ctx =
     Inr (writeText (writeText
            (writeText ctx ''<code class="doc-code-span language-javascript">'') code)
            ''</code>'')\<close>
| \<open>writeNode E (FencedCode code) ctx =
     Inr (writeLn (writeLn (writeText (writeLn (writeLn (onWriter ensureNewLine ctx)
            ''<pre class="doc-fenced-code">'') ''<code class="language-javascript">'')
            (trim code)) ''</code>'') ''</pre>'')\<close>
| \<open>writeNode E SoftBreak ctx =
     (if \<not> matchesOptionalWhitespace (peekLastCharacter (writer ctx))
      then Inr (writeText ctx ''<br />'') else Inr ctx)\<close>
| \<open>writeNode E docNode ctx = superWriteNode E docNode ctx\<close>
| \<open>superWriteNode E (PlainText text) ctx = Inr (writePlainText E text ctx)\<close>
| \<open>superWriteNode E (Paragraph nodes) ctx =
     (case writeNodes E nodes (onWriter ensureSkippedLine ctx) of
        Inl e \<Rightarrow> Inl e
      | Inr ctx1 \<Rightarrow> Inr (onWriter ensureSkippedLine ctx1))\<close>
| \<open>superWriteNode E (Section nodes) ctx =
     (case writeNodes E nodes (onWriter ensureSkippedLine ctx) of
        Inl e \<Rightarrow> Inl e
      | Inr ctx1 \<Rightarrow> Inr (onWriter ensureSkippedLine ctx1))\<close>
| \<open>superWriteNode E (LinkTag docLinkTag) ctx =
     (if codeDestination docLinkTag \<noteq> None
      then writeLinkTagWithCodeDestination E docLinkTag ctx
      else if urlDestination docLinkTag \<noteq> None
      then writeLinkTagWithUrlDestination E docLinkTag ctx
      else Inr ctx)\<close>
| \<open>superWriteNode E docNode ctx = Inl UnsupportedKind\<close>
| \<open>writeNodes E [] ctx = Inr ctx\<close>
| \<open>writeNodes E (docNode # docNodes) ctx =
     (case writeNode E docNode ctx of
        Inl e \<Rightarrow> Inl e
      | Inr ctx1 \<Rightarrow> writeNodes E docNodes ctx1)\<close>
| \<open>writeHeaderCells E header i columnCount ctx =
     (if i < columnCount then
        (case (case header of
                 None \<Rightarrow> Inr (writeText ctx ''<th>'')
               | Some h \<Rightarrow>
                   if i < length (cells h)
                   then writeNode E (content (cells h ! i)) (writeText ctx ''<th>'')
                   else Inr (writeText ctx ''<th>'')) of
           Inl e \<Rightarrow> Inl e
         | Inr ctx1 \<Rightarrow> writeHeaderCells E header (Suc i) columnCount (writeText ctx1 ''</th>''))
      else Inr ctx)\<close>
| \<open>writeRows E [] ctx = Inr ctx\<close>
| \<open>writeRows E (row # rows) ctx =
     (case writeRowCells E (cells row) (writeText ctx ''<tr>'') of
        Inl e \<Rightarrow> Inl e
      | Inr ctx1 \<Rightarrow> writeRows E rows (writeLn (writeLn ctx1 []) ''</tr>''))\<close>
| \<open>writeRowCells E [] ctx = Inr ctx\<close>
| \<open>writeRowCells E (cell # rest) ctx =
     (case writeNode E (content cell) (writeText ctx ''<td>'') of
        Inl e \<Rightarrow> Inl e
      | Inr ctx1 \<Rightarrow> writeRowCells E rest (writeText ctx1 ''</td>''))\<close>
  by pat_completeness auto

lemma size_content_cell: \<open>size (content cell) < size cell\<close>
  by (cases cell) simp

lemma size_cells_row: \<open>size_list size (cells row) < size row\<close>
  by (cases row) simp

lemma size_content_nth:
  \<open>i < length cs \<Longrightarrow> size (content (cs ! i)) < size_list size cs\<close>
proof -
  assume \<open>i < length cs\<close>
  then have \<open>cs ! i \<in> set cs\<close> by simp
  then have \<open>size (cs ! i) \<le> size_list size cs\<close>
    by (rule size_list_estimation') simp
  with size_content_cell [of \<open>cs ! i\<close>] show ?thesis by simp
qed

text \<open>
  Every call descends into the node; the header loop keeps the header and counts up to
  the column count.
\<close>

termination writeNode
  apply (relation \<open>(\<lambda>x. case x of
           Inl (Inl (E, n, c)) \<Rightarrow> size n
         | Inl (Inr (Inl (E, n, c))) \<Rightarrow> size n
         | Inl (Inr (Inr (E, ns, c))) \<Rightarrow> size_list size ns
         | Inr (Inl (E, h, i, k, c)) \<Rightarrow> size_option size h
         | Inr (Inr (Inl (E, rs, c))) \<Rightarrow> size_list size rs
         | Inr (Inr (Inr (E, cs, c))) \<Rightarrow> size_list size cs) <*mlex*>
         (\<lambda>x. case x of
           Inl (Inl (E, n, c)) \<Rightarrow> 1
         | Inl (Inr (Inl (E, n, c))) \<Rightarrow> 0
         | Inl (Inr (Inr (E, ns, c))) \<Rightarrow> 0
         | Inr (Inl (E, h, i, k, c)) \<Rightarrow> k - i
         | Inr (Inr (Inl (E, rs, c))) \<Rightarrow> 0
         | Inr (Inr (Inr (E, cs, c))) \<Rightarrow> 0) <*mlex*> {}\<close>)
  apply (auto simp: wf_mlex mlex_less mlex_leq)
  subgoal for E i columnCount ctx h
    using size_content_nth [of i \<open>cells h\<close>] size_cells_row [of h]
    by (intro mlex_less) simp
  subgoal for E row rows ctx
    using size_cells_row [of row] by (intro mlex_less) simp
  subgoal for E cell rest ctx
    using size_content_cell [of cell] by (intro mlex_less) simp
  done


text \<open>
  The equation of the header loop applies to every argument, so it is unfolded by hand.
\<close>

declare writeHeaderCells.simps [simp del]


section \<open>What a render call leaves behind, and an example environment\<close>

text \<open>The text written and the lines logged by a call, or the error it ended with.\<close>

definition rendered :: \<open>error + 'item emitterContext \<Rightarrow> error + string \<times> consoleLine list\<close> where
  \<open>rendered r = map_sum id (\<lambda>ctx. (buffer (writer ctx), console ctx)) r\<close>

text \<open>
  Modelled from the spec: an instance of the inherited \<^verbatim>\<open>getEscapedText\<close>
  (\<^verbatim>\<open>MarkdownEmitter.ts\<close> is not among the sources), used in the examples only. Section
  4.2: characters with syntactic meaning are backslash-escaped.
\<close>

definition backslashEscape :: \<open>string \<Rightarrow> string\<close> where
  \<open>backslashEscape s =
     concat (map (\<lambda>c. if c \<in> set (CHR 0x5C # ''*_[]`#|'') then [CHR 0x5C, c] else [c]) s)\<close>

text \<open>
  An API model with two entities: \<open>pkg#Foo.bar\<close> resolves to a documented method,
  \<open>pkg#Hidden\<close> to an entity outside the documented set; every other reference fails to
  resolve. References and API items are given by their names.
\<close>

definition exampleEmitter :: \<open>(string, string) emitter\<close> where
  \<open>exampleEmitter =
     \<lparr>resolveDeclarationReference =
        (\<lambda>reference contextItem.
           if reference = ''pkg#Foo.bar''
           then \<lparr>resolvedApiItem = Some ''Foo.bar()'', errorMessage = None\<rparr>
           else if reference = ''pkg#Hidden''
           then \<lparr>resolvedApiItem = Some ''Hidden'', errorMessage = None\<rparr>
           else \<lparr>resolvedApiItem = None, errorMessage = Some ''not found''\<rparr>),
      emitAsTsdoc = (\<lambda>reference. reference),
      getScopedNameWithinPackage = (\<lambda>item. item),
      getEscapedText = backslashEscape,
      boldMarker = ''**'',
      italicMarker = ''_''\<rparr>\<close>

definition exampleOptions :: \<open>string emitterOptions\<close> where
  \<open>exampleOptions =
     \<lparr>contextApiItem = None,
      onGetFilenameForApiItem =
        (\<lambda>item. if item = ''Foo.bar()'' then Some ''Foo.bar.md'' else None)\<rparr>\<close>

text \<open>The context at the start of a render call: nothing written, no indentation.\<close>

definition exampleContext :: \<open>string emitterContext\<close> where
  \<open>exampleContext =
     \<lparr>writer = \<lparr>buffer = [], indentLevel = 0, indentPrefix = ''  ''\<rparr>,
      insideTable = False, boldRequested = False, italicRequested = False,
      options = exampleOptions, console = []\<rparr>\<close>


text \<open>
  How one writer state follows another: the same indent string, and a buffer that has the
  earlier buffer as a prefix. How one context follows another: the same emphasis flags,
  options and indentation level, a writer that has grown, and a console that has the
  earlier lines as a prefix.
\<close>

definition grows :: \<open>indentedWriter \<Rightarrow> indentedWriter \<Rightarrow> bool\<close> where
  \<open>grows w w' \<longleftrightarrow> indentPrefix w' = indentPrefix w \<and> (\<exists>s. buffer w' = buffer w @ s)\<close>

definition continues :: \<open>'item emitterContext \<Rightarrow> 'item emitterContext \<Rightarrow> bool\<close> where
  \<open>continues ctx ctx' \<longleftrightarrow>
     boldRequested ctx' = boldRequested ctx \<and> italicRequested ctx' = italicRequested ctx \<and>
     options ctx' = options ctx \<and>
     indentLevel (writer ctx') = indentLevel (writer ctx) \<and>
     grows (writer ctx) (writer ctx') \<and>
     (\<exists>l. console ctx' = console ctx @ l)\<close>



definition exampleRows :: \<open>string docTableRow list\<close> where
  \<open>exampleRows =
     [DocTableRow [DocTableCell (Section [PlainText ''1'']),
                   DocTableCell (Section [PlainText ''2''])],
      DocTableRow [DocTableCell (Section [PlainText ''3''])],
      DocTableRow []]\<close>



text \<open>The indentation that the next character gets if it starts a line.\<close>

definition lineStartIndent :: \<open>indentedWriter \<Rightarrow> string\<close> where
  \<open>lineStartIndent w = (if atLineStart w then indentText w else [])\<close>

text \<open>
  The markup of a table, given the indentation of its lines and what the content of each
  header cell and of each data cell has written: the header cells, one row, and the
  whole table. What a cell's content has written includes the indentation of the cell's
  closing tag, when the content ends with a line break.
\<close>

definition headerCellsMarkup :: \<open>string list \<Rightarrow> string\<close> where
  \<open>headerCellsMarkup outs = concat (map (\<lambda>out. ''<th>'' @ out @ ''</th>'') outs)\<close>

definition rowMarkup :: \<open>string \<Rightarrow> string list \<Rightarrow> string\<close> where
  \<open>rowMarkup indent outs =
     indent @ ''<tr>'' @ concat (map (\<lambda>out. ''<td>'' @ out @ ''</td>'') outs)
     @ newline # indent @ ''</tr>\<newline>''\<close>

definition tableMarkup :: \<open>string \<Rightarrow> string list \<Rightarrow> string list list \<Rightarrow> string\<close> where
  \<open>tableMarkup indent hs rs =
     indent @ ''<table class="doc-table">\<newline>''
     @ indent @ ''<thead>\<newline>''
     @ indent @ ''<tr>\<newline>''
     @ (if hs = [] then [] else indent) @ headerCellsMarkup hs
     @ newline # indent @ ''</tr>\<newline>''
     @ indent @ ''</thead>\<newline>''
     @ concat (map (rowMarkup indent) rs)
     @ indent @ ''</table>\<newline>''\<close>


section \<open>Facts about whitespace runs\<close>

text \<open>
  Replacing the whitespace runs keeps every character that is not whitespace, in order,
  and leaves no whitespace character but the space.
\<close>

lemma collapseRuns_keeps:
  \<open>filter (\<lambda>c. \<not> isWhitespace c) (collapseRuns inRun s) = filter (\<lambda>c. \<not> isWhitespace c) s\<close>
  by (induction s arbitrary: inRun) (simp_all add: isWhitespace_def)

lemma collapseRuns_spaces:
  \<open>c \<in> set (collapseRuns inRun s) \<Longrightarrow> isWhitespace c \<Longrightarrow> c = CHR '' ''\<close>
  by (induction s arbitrary: inRun) (auto split: if_splits)

lemma replaceWhitespaceRuns_keeps:
  \<open>filter (\<lambda>c. \<not> isWhitespace c) (replaceWhitespaceRuns s) = filter (\<lambda>c. \<not> isWhitespace c) s\<close>
  by (simp add: replaceWhitespaceRuns_def collapseRuns_keeps)

lemma replaceWhitespaceRuns_spaces:
  \<open>c \<in> set (replaceWhitespaceRuns s) \<Longrightarrow> isWhitespace c \<Longrightarrow> c = CHR '' ''\<close>
  unfolding replaceWhitespaceRuns_def by (rule collapseRuns_spaces)


section \<open>Facts about the writer\<close>

lemma write_text_append: \<open>write_text (write_text w a) b = write_text w (a @ b)\<close>
  by (simp add: write_text_def)

lemma writeLine_write_text: \<open>writeLine w s = write_text w (s @ [newline])\<close>
  by (simp add: writeLine_def write_text_def)

lemma indentText_flat: \<open>indentLevel w = 0 \<Longrightarrow> indentText w = []\<close>
  by (simp add: indentText_def)

lemma writeChar_fields [simp]:
  \<open>indentLevel (writeChar w c) = indentLevel w\<close>
  \<open>indentPrefix (writeChar w c) = indentPrefix w\<close>
  by (simp_all add: writeChar_def)

lemma write_text_fields [simp]:
  \<open>indentLevel (write_text w s) = indentLevel w\<close>
  \<open>indentPrefix (write_text w s) = indentPrefix w\<close>
  unfolding write_text_def by (induction s arbitrary: w) simp_all

lemma buffer_writeChar_newline: \<open>buffer (writeChar w newline) = buffer w @ [newline]\<close>
  by (simp add: writeChar_def)

lemma writeChar_newline: \<open>writeChar w newline = w\<lparr>buffer := buffer w @ [newline]\<rparr>\<close>
  by (simp add: writeChar_def)

lemma write_text_nil: \<open>write_text w [] = w\<close>
  by (simp add: write_text_def)

lemma buffer_write_text_flat:
  \<open>indentLevel w = 0 \<Longrightarrow> buffer (write_text w s) = buffer w @ s\<close>
  unfolding write_text_def
  by (induction s arbitrary: w) (simp_all add: writeChar_def indentText_flat)


section \<open>Link tags with a URL destination\<close>

text \<open>
  C7, as the code has it. For every link tag with a URL destination, the display text is
  the link text when one is given and the destination URL when the link text is
  \<^verbatim>\<open>undefined\<close>; the display text has its whitespace runs collapsed to single spaces
  and is then escaped, and an anchor to the destination URL around it is written. A link
  text that is given but empty is not replaced by the URL.
\<close>

theorem url_link_display_text:
  \<open>urlDestination docLinkTag = Some url \<Longrightarrow>
   writeLinkTagWithUrlDestination E docLinkTag ctx =
     Inr (ctx\<lparr>writer := write_text (writer ctx)
       (''<a href="'' @ url @ ''">''
        @ getEscapedText E (replaceWhitespaceRuns
            (case linkText docLinkTag of None \<Rightarrow> url | Some text \<Rightarrow> text))
        @ ''</a>'')\<rparr>)\<close>
  by (simp add: writeLinkTagWithUrlDestination_def writeText_def split: option.splits)

theorem url_link_display_text_witness:
  \<open>rendered (writeLinkTagWithUrlDestination exampleEmitter
     \<lparr>linkText = None, urlDestination = Some ''http://a.b/c'', codeDestination = None\<rparr>
     exampleContext) =
   Inr (''<a href="http://a.b/c">http://a.b/c</a>'', []) \<and>
   rendered (writeLinkTagWithUrlDestination exampleEmitter
     \<lparr>linkText = Some ''the  home page'', urlDestination = Some ''http://a.b/c'',
        codeDestination = None\<rparr>
     exampleContext) =
   Inr (''<a href="http://a.b/c">the home page</a>'', [])\<close>
  using url_link_display_text [of
      \<open>\<lparr>linkText = None, urlDestination = Some ''http://a.b/c'', codeDestination = None\<rparr>\<close>
      \<open>''http://a.b/c''\<close> exampleEmitter exampleContext]
    url_link_display_text [of
      \<open>\<lparr>linkText = Some ''the  home page'', urlDestination = Some ''http://a.b/c'',
          codeDestination = None\<rparr>\<close>
      \<open>''http://a.b/c''\<close> exampleEmitter exampleContext]
  by (simp add: rendered_def exampleContext_def buffer_write_text_flat exampleEmitter_def
        backslashEscape_def replaceWhitespaceRuns_def isWhitespace_def)

text \<open>
  A link tag whose link text is the empty string: the anchor is written with no text,
  not with the URL as its text.
\<close>

theorem url_link_empty_text_counterexample:
  \<open>rendered (writeLinkTagWithUrlDestination exampleEmitter
     \<lparr>linkText = Some [], urlDestination = Some ''http://a.b/c'', codeDestination = None\<rparr>
     exampleContext) =
   Inr (''<a href="http://a.b/c"></a>'', [])\<close>
  by (simp add: rendered_def writeLinkTagWithUrlDestination_def writeText_def exampleContext_def
        buffer_write_text_flat exampleEmitter_def backslashEscape_def replaceWhitespaceRuns_def)


section \<open>Link tags with a code destination\<close>

text \<open>
  C1, as the code has it. For every link tag whose reference resolves to an entity for
  which the filename lookup returns a (non-empty) filename: the display text is the link
  text when one is given and not empty, and the entity's scoped name within its package
  otherwise. If that display text is the empty string, nothing is written and the warning
  "Unable to determine link text" is logged; otherwise a link to the filename is written
  whose text is the display text with whitespace runs collapsed and then escaped. The
  display text is not trimmed: one that consists of whitespace only is written as a link.
\<close>

theorem code_link_resolved:
  assumes \<open>codeDestination docLinkTag = Some reference\<close>
    and \<open>resolvedApiItem (resolveDeclarationReference E reference (contextApiItem (options ctx)))
           = Some item\<close>
    and \<open>onGetFilenameForApiItem (options ctx) item = Some filename\<close>
    and \<open>filename \<noteq> []\<close>
  shows \<open>writeLinkTagWithCodeDestination E docLinkTag ctx =
     (let displayText =
            (case linkText docLinkTag of
               None \<Rightarrow> getScopedNameWithinPackage E item
             | Some text \<Rightarrow> if text = [] then getScopedNameWithinPackage E item else text)
      in if displayText = []
         then Inr (ctx\<lparr>console := console ctx
                     @ [Yellow ''WARNING: Unable to determine link text'']\<rparr>)
         else Inr (ctx\<lparr>writer := write_text (writer ctx)
                     (''['' @ getEscapedText E (replaceWhitespaceRuns displayText)
                      @ '']('' @ filename @ '')'')\<rparr>))\<close>
  using assms
  by (simp add: writeLinkTagWithCodeDestination_def Let_def writeText_def consoleLog_def
        write_text_append split: option.splits)

theorem code_link_resolved_witness:
  \<open>rendered (writeLinkTagWithCodeDestination exampleEmitter
      \<lparr>linkText = None, urlDestination = None, codeDestination = Some ''pkg#Foo.bar''\<rparr>
      exampleContext) = Inr (''[Foo.bar()](Foo.bar.md)'', []) \<and>
   rendered (writeLinkTagWithCodeDestination exampleEmitter
      \<lparr>linkText = Some ''the bar  method'', urlDestination = None,
         codeDestination = Some ''pkg#Foo.bar''\<rparr>
      exampleContext) = Inr (''[the bar method](Foo.bar.md)'', [])\<close>
  using code_link_resolved [of
      \<open>\<lparr>linkText = None, urlDestination = None, codeDestination = Some ''pkg#Foo.bar''\<rparr>\<close>
      \<open>''pkg#Foo.bar''\<close> exampleEmitter exampleContext \<open>''Foo.bar()''\<close> \<open>''Foo.bar.md''\<close>]
    code_link_resolved [of
      \<open>\<lparr>linkText = Some ''the bar  method'', urlDestination = None,
          codeDestination = Some ''pkg#Foo.bar''\<rparr>\<close>
      \<open>''pkg#Foo.bar''\<close> exampleEmitter exampleContext \<open>''Foo.bar()''\<close> \<open>''Foo.bar.md''\<close>]
  by (simp add: rendered_def exampleContext_def exampleOptions_def buffer_write_text_flat
        exampleEmitter_def backslashEscape_def replaceWhitespaceRuns_def isWhitespace_def)

text \<open>
  A link text of two spaces is empty after trimming, yet a link is written for it and
  nothing is logged.
\<close>

theorem code_link_blank_text_counterexample:
  \<open>trim ''  '' = [] \<and>
   rendered (writeLinkTagWithCodeDestination exampleEmitter
      \<lparr>linkText = Some ''  '', urlDestination = None, codeDestination = Some ''pkg#Foo.bar''\<rparr>
      exampleContext) = Inr (''[ ](Foo.bar.md)'', [])\<close>
  by (simp add: trim_def rendered_def writeLinkTagWithCodeDestination_def writeText_def
        write_text_append exampleContext_def exampleOptions_def buffer_write_text_flat
        exampleEmitter_def backslashEscape_def replaceWhitespaceRuns_def isWhitespace_def)


text \<open>
  C2. For every link tag with a code destination: if the reference resolves to an entity
  for which the filename lookup returns nothing, the call leaves the context as it was
  (nothing written, nothing logged); if the reference does not resolve and the resolver
  gives an error message, nothing is written and one warning is logged that contains the
  reference's text and the resolver's error message; and in every case the call returns
  normally.
\<close>

theorem code_link_dropped_or_unresolved:
  assumes \<open>codeDestination docLinkTag = Some reference\<close>
  shows \<open>(\<forall>item.
            resolvedApiItem (resolveDeclarationReference E reference (contextApiItem (options ctx)))
              = Some item \<and>
            onGetFilenameForApiItem (options ctx) item = None \<longrightarrow>
            writeLinkTagWithCodeDestination E docLinkTag ctx = Inr ctx) \<and>
         (\<forall>message.
            resolvedApiItem (resolveDeclarationReference E reference (contextApiItem (options ctx)))
              = None \<and>
            errorMessage (resolveDeclarationReference E reference (contextApiItem (options ctx)))
              = Some message \<and> message \<noteq> [] \<longrightarrow>
            writeLinkTagWithCodeDestination E docLinkTag ctx =
              Inr (ctx\<lparr>console := console ctx
                     @ [Yellow (''WARNING: Unable to resolve reference "''
                                @ emitAsTsdoc E reference @ ''": '' @ message)]\<rparr>)) \<and>
         (\<exists>ctx'. writeLinkTagWithCodeDestination E docLinkTag ctx = Inr ctx')\<close>
  using assms
  by (simp add: writeLinkTagWithCodeDestination_def Let_def consoleLog_def split: option.splits)

theorem code_link_dropped_or_unresolved_witness:
  \<open>rendered (writeLinkTagWithCodeDestination exampleEmitter
      \<lparr>linkText = Some ''hidden'', urlDestination = None, codeDestination = Some ''pkg#Hidden''\<rparr>
      exampleContext) = Inr ([], []) \<and>
   rendered (writeLinkTagWithCodeDestination exampleEmitter
      \<lparr>linkText = Some ''gone'', urlDestination = None, codeDestination = Some ''pkg#Gone''\<rparr>
      exampleContext) =
     Inr ([], [Yellow ''WARNING: Unable to resolve reference "pkg#Gone": not found''])\<close>
  using code_link_dropped_or_unresolved [of
      \<open>\<lparr>linkText = Some ''hidden'', urlDestination = None, codeDestination = Some ''pkg#Hidden''\<rparr>\<close>
      \<open>''pkg#Hidden''\<close> exampleEmitter exampleContext]
    code_link_dropped_or_unresolved [of
      \<open>\<lparr>linkText = Some ''gone'', urlDestination = None, codeDestination = Some ''pkg#Gone''\<rparr>\<close>
      \<open>''pkg#Gone''\<close> exampleEmitter exampleContext]
  by (simp add: rendered_def exampleContext_def exampleOptions_def exampleEmitter_def)


section \<open>What every render step keeps\<close>

lemma onWriter_fields [simp]:
  \<open>writer (onWriter f ctx) = f (writer ctx)\<close>
  \<open>insideTable (onWriter f ctx) = insideTable ctx\<close>
  \<open>boldRequested (onWriter f ctx) = boldRequested ctx\<close>
  \<open>italicRequested (onWriter f ctx) = italicRequested ctx\<close>
  \<open>options (onWriter f ctx) = options ctx\<close>
  \<open>console (onWriter f ctx) = console ctx\<close>
  by (simp_all add: onWriter_def)

lemma writeLn_fields [simp]:
  \<open>writer (writeLn ctx m) = writeLine (writer ctx) m\<close>
  \<open>insideTable (writeLn ctx m) = insideTable ctx\<close>
  \<open>boldRequested (writeLn ctx m) = boldRequested ctx\<close>
  \<open>italicRequested (writeLn ctx m) = italicRequested ctx\<close>
  \<open>options (writeLn ctx m) = options ctx\<close>
  \<open>console (writeLn ctx m) = console ctx\<close>
  by (simp_all add: writeLn_def)

lemma writeText_fields [simp]:
  \<open>writer (writeText ctx m) = write_text (writer ctx) m\<close>
  \<open>insideTable (writeText ctx m) = insideTable ctx\<close>
  \<open>boldRequested (writeText ctx m) = boldRequested ctx\<close>
  \<open>italicRequested (writeText ctx m) = italicRequested ctx\<close>
  \<open>options (writeText ctx m) = options ctx\<close>
  \<open>console (writeText ctx m) = console ctx\<close>
  by (simp_all add: writeText_def)

lemma consoleLog_fields [simp]:
  \<open>writer (consoleLog ctx l) = writer ctx\<close>
  \<open>insideTable (consoleLog ctx l) = insideTable ctx\<close>
  \<open>boldRequested (consoleLog ctx l) = boldRequested ctx\<close>
  \<open>italicRequested (consoleLog ctx l) = italicRequested ctx\<close>
  \<open>options (consoleLog ctx l) = options ctx\<close>
  \<open>console (consoleLog ctx l) = console ctx @ [l]\<close>
  by (simp_all add: consoleLog_def)

lemma indent_fields [simp]:
  \<open>buffer (increaseIndent w) = buffer w\<close>
  \<open>indentPrefix (increaseIndent w) = indentPrefix w\<close>
  \<open>indentLevel (increaseIndent w) = Suc (indentLevel w)\<close>
  \<open>buffer (decreaseIndent w) = buffer w\<close>
  \<open>indentPrefix (decreaseIndent w) = indentPrefix w\<close>
  \<open>indentLevel (decreaseIndent w) = indentLevel w - 1\<close>
  by (simp_all add: increaseIndent_def decreaseIndent_def)

lemma writeLine_fields [simp]:
  \<open>indentLevel (writeLine w m) = indentLevel w\<close>
  \<open>indentPrefix (writeLine w m) = indentPrefix w\<close>
  by (simp_all add: writeLine_def)

lemma ensureNewLine_fields [simp]:
  \<open>indentLevel (ensureNewLine w) = indentLevel w\<close>
  \<open>indentPrefix (ensureNewLine w) = indentPrefix w\<close>
  by (simp_all add: ensureNewLine_def)

lemma ensureSkippedLine_fields [simp]:
  \<open>indentLevel (ensureSkippedLine w) = indentLevel w\<close>
  \<open>indentPrefix (ensureSkippedLine w) = indentPrefix w\<close>
  by (simp_all add: ensureSkippedLine_def)

lemma grows_refl [simp]: \<open>grows w w\<close>
  by (simp add: grows_def)

lemma grows_trans: \<open>grows a b \<Longrightarrow> grows b c \<Longrightarrow> grows a c\<close>
  by (auto simp: grows_def)

lemma grows_writeChar [simp]: \<open>grows w (writeChar w c)\<close>
  by (simp add: grows_def writeChar_def)

lemma grows_write_text [simp]: \<open>grows w (write_text w m)\<close>
  unfolding write_text_def
proof (induction m arbitrary: w)
  case Nil show ?case by simp
next
  case (Cons c m)
  have \<open>grows w (writeChar w c)\<close> by simp
  moreover have \<open>grows (writeChar w c) (foldl writeChar (writeChar w c) m)\<close> by (rule Cons.IH)
  ultimately have \<open>grows w (foldl writeChar (writeChar w c) m)\<close> by (rule grows_trans)
  then show ?case by simp
qed

lemma grows_writeLine [simp]: \<open>grows w (writeLine w m)\<close>
  by (simp add: writeLine_write_text)

lemma grows_ensureNewLine [simp]: \<open>grows w (ensureNewLine w)\<close>
  by (simp add: ensureNewLine_def)

lemma grows_ensureSkippedLine [simp]: \<open>grows w (ensureSkippedLine w)\<close>
  by (auto simp: ensureSkippedLine_def intro: grows_trans [OF grows_writeChar grows_writeChar])

lemma grows_indent [simp]:
  \<open>grows (increaseIndent a) b \<longleftrightarrow> grows a b\<close>
  \<open>grows a (increaseIndent b) \<longleftrightarrow> grows a b\<close>
  \<open>grows (decreaseIndent a) b \<longleftrightarrow> grows a b\<close>
  \<open>grows a (decreaseIndent b) \<longleftrightarrow> grows a b\<close>
  by (simp_all add: grows_def)

lemma grows_after:
  \<open>grows a b \<Longrightarrow> grows a (write_text b m)\<close>
  \<open>grows a b \<Longrightarrow> grows a (writeLine b m)\<close>
  \<open>grows a b \<Longrightarrow> grows a (ensureNewLine b)\<close>
  \<open>grows a b \<Longrightarrow> grows a (ensureSkippedLine b)\<close>
  by (erule grows_trans, simp)+

lemma grows_before:
  \<open>grows (write_text a m) b \<Longrightarrow> grows a b\<close>
  \<open>grows (writeLine a m) b \<Longrightarrow> grows a b\<close>
  \<open>grows (ensureNewLine a) b \<Longrightarrow> grows a b\<close>
  \<open>grows (ensureSkippedLine a) b \<Longrightarrow> grows a b\<close>
  by (rule grows_trans [rotated], assumption, simp)+

lemma continues_refl [simp]: \<open>continues ctx ctx\<close>
  by (simp add: continues_def)

lemma continues_trans: \<open>continues a b \<Longrightarrow> continues b c \<Longrightarrow> continues a c\<close>
  unfolding continues_def by (auto intro: grows_trans)

lemma continues_step [simp]:
  \<open>continues ctx (writeText ctx m)\<close>
  \<open>continues ctx (writeLn ctx m)\<close>
  \<open>continues ctx (onWriter ensureNewLine ctx)\<close>
  \<open>continues ctx (onWriter ensureSkippedLine ctx)\<close>
  \<open>continues ctx (consoleLog ctx l)\<close>
  by (simp_all add: continues_def)

lemma continues_insideTable [simp]:
  \<open>continues ctx (ctx'\<lparr>insideTable := b\<rparr>) \<longleftrightarrow> continues ctx ctx'\<close>
  \<open>continues (ctx\<lparr>insideTable := b\<rparr>) ctx' \<longleftrightarrow> continues ctx ctx'\<close>
  by (simp_all add: continues_def)

lemma continues_after:
  \<open>continues a b \<Longrightarrow> continues a (writeText b m)\<close>
  \<open>continues a b \<Longrightarrow> continues a (writeLn b m)\<close>
  \<open>continues a b \<Longrightarrow> continues a (onWriter ensureNewLine b)\<close>
  \<open>continues a b \<Longrightarrow> continues a (onWriter ensureSkippedLine b)\<close>
  by (erule continues_trans, simp)+

lemma continues_before:
  \<open>continues (writeText a m) b \<Longrightarrow> continues a b\<close>
  \<open>continues (writeLn a m) b \<Longrightarrow> continues a b\<close>
  \<open>continues (onWriter ensureNewLine a) b \<Longrightarrow> continues a b\<close>
  \<open>continues (onWriter ensureSkippedLine a) b \<Longrightarrow> continues a b\<close>
  by (rule continues_trans [rotated], assumption, simp)+

lemma continues_flags:
  \<open>continues (a\<lparr>boldRequested := x, italicRequested := y\<rparr>) b \<Longrightarrow>
   continues a (b\<lparr>boldRequested := boldRequested a, italicRequested := italicRequested a\<rparr>)\<close>
  by (simp add: continues_def)

lemma continues_indented:
  assumes \<open>continues (writeLn (onWriter increaseIndent (onWriter ensureNewLine a)) m) b\<close>
  shows \<open>continues a (writeLn (onWriter decreaseIndent (writeLn (onWriter ensureNewLine b) m')) [])\<close>
proof -
  from assms have \<open>grows (writeLine (increaseIndent (ensureNewLine (writer a))) m) (writer b)\<close>
    by (simp add: continues_def)
  then have \<open>grows (writer a) (writer b)\<close>
    by (auto dest!: grows_before)
  then have \<open>grows (writer a)
      (writeLine (decreaseIndent (writeLine (ensureNewLine (writer b)) m')) [])\<close>
    by (intro grows_after) (simp add: grows_after)
  with assms show ?thesis
    by (simp add: continues_def)
qed

lemma continues_url_link:
  \<open>writeLinkTagWithUrlDestination E t ctx = Inr ctx' \<Longrightarrow> continues ctx ctx'\<close>
  by (auto simp: writeLinkTagWithUrlDestination_def Let_def split: option.splits)

lemma continues_code_link:
  \<open>writeLinkTagWithCodeDestination E t ctx = Inr ctx' \<Longrightarrow> continues ctx ctx'\<close>
  by (auto simp: writeLinkTagWithCodeDestination_def Let_def split: option.splits if_splits
      intro!: continues_after)

lemma continues_writePlainText [simp]: \<open>continues ctx (writePlainText E t ctx)\<close>
  by (simp add: writePlainText_def Let_def)


lemma continues_render:
  \<open>writeNode E n ctx = Inr ctx' \<Longrightarrow> continues ctx ctx'\<close>
  \<open>superWriteNode E n ctx = Inr ctx' \<Longrightarrow> continues ctx ctx'\<close>
  \<open>writeNodes E ns ctx = Inr ctx' \<Longrightarrow> continues ctx ctx'\<close>
  \<open>writeHeaderCells E h i k ctx = Inr ctx' \<Longrightarrow> continues ctx ctx'\<close>
  \<open>writeRows E rs ctx = Inr ctx' \<Longrightarrow> continues ctx ctx'\<close>
  \<open>writeRowCells E cs ctx = Inr ctx' \<Longrightarrow> continues ctx ctx'\<close>
proof (induction E n ctx and E n ctx and E ns ctx and E h i k ctx and E rs ctx and E cs ctx
    arbitrary: ctx' and ctx' and ctx' and ctx' and ctx' and ctx'
    rule: writeNode_superWriteNode_writeNodes_writeHeaderCells_writeRows_writeRowCells.induct)
  case (1 E title level ctx)
  then show ?case by (auto intro!: continues_after)
next
  case (2 E noteContent ctx)
  then show ?case by (auto split: sum.splits intro: continues_indented)
next
  case (3 E header rows ctx)
  from "3.prems" obtain ctx3 ctx4 where
      h: \<open>writeHeaderCells E header 0 (tableColumnCount header rows)
            (writeLn (writeLn (writeLn ((onWriter ensureSkippedLine ctx)\<lparr>insideTable := True\<rparr>)
               ''<table class="doc-table">'') ''<thead>'') ''<tr>'') = Inr ctx3\<close>
      and r: \<open>writeRows E rows (writeLn (writeLn (writeLn ctx3 []) ''</tr>'') ''</thead>'') = Inr ctx4\<close>
      and c: \<open>ctx' = (writeLn ctx4 ''</table>'')\<lparr>insideTable := False\<rparr>\<close>
    by (auto simp: Let_def split: sum.splits)
  have \<open>continues ctx ctx3\<close>
    using "3.IH"(1) [OF refl refl refl h]
    by (auto dest!: continues_before)
  moreover have \<open>continues ctx3 ctx4\<close>
    using "3.IH"(2) [OF refl refl refl h r] by (auto dest!: continues_before)
  ultimately have \<open>continues ctx ctx4\<close> by (rule continues_trans)
  then show ?case
    unfolding c by (simp add: continues_after)
next
  case (4 E bold italic nodes ctx)
  then show ?case by (auto split: sum.splits intro: continues_flags)
next
  case (5 E code ctx)
  then show ?case by (auto intro!: continues_after)
next
  case (6 E code ctx)
  then show ?case by (auto intro!: continues_after)
next
  case (7 E ctx)
  then show ?case by (auto split: if_splits)
next
  case (10 E nodes ctx)
  then show ?case
    by (auto split: sum.splits intro!: continues_after dest!: continues_before)
next
  case (11 E nodes ctx)
  then show ?case
    by (auto split: sum.splits intro!: continues_after dest!: continues_before)
next
  case (12 E docLinkTag ctx)
  then show ?case by (auto split: if_splits intro: continues_url_link continues_code_link)
next
  case (15 E docNode docNodes ctx)
  from "15.prems" obtain b where
      b: \<open>writeNode E docNode ctx = Inr b\<close> and r: \<open>writeNodes E docNodes b = Inr ctx'\<close>
    by (auto split: sum.splits)
  show ?case
    using "15.IH"(1) [OF b] "15.IH"(2) [OF b r] by (rule continues_trans)
next
  case (16 E header i columnCount ctx)
  show ?case
  proof (cases \<open>i < columnCount\<close>)
    case False
    with "16.prems" show ?thesis by (simp add: writeHeaderCells.simps)
  next
    case True
    with "16.prems" obtain b where
        b: \<open>(case header of None \<Rightarrow> Inr (writeText ctx ''<th>'')
              | Some h \<Rightarrow> if i < length (cells h)
                  then writeNode E (content (cells h ! i)) (writeText ctx ''<th>'')
                  else Inr (writeText ctx ''<th>'')) = Inr b\<close>
        and r: \<open>writeHeaderCells E header (Suc i) columnCount (writeText b ''</th>'') = Inr ctx'\<close>
      by (subst (asm) writeHeaderCells.simps) (auto split: sum.splits)
    have \<open>continues ctx b\<close>
      using b "16.IH"(1) [OF True]
      by (auto split: option.splits if_splits dest!: continues_before)
    moreover have \<open>continues b ctx'\<close>
      using "16.IH"(2) [OF True b r] by (auto dest!: continues_before)
    ultimately show ?thesis by (rule continues_trans)
  qed
next
  case (18 E row rows ctx)
  from "18.prems" obtain b where
      b: \<open>writeRowCells E (cells row) (writeText ctx ''<tr>'') = Inr b\<close>
      and r: \<open>writeRows E rows (writeLn (writeLn b []) ''</tr>'') = Inr ctx'\<close>
    by (auto split: sum.splits)
  have \<open>continues ctx b\<close>
    using "18.IH"(1) [OF b] by (auto dest!: continues_before)
  moreover have \<open>continues b ctx'\<close>
    using "18.IH"(2) [OF b r] by (auto dest!: continues_before)
  ultimately show ?case by (rule continues_trans)
next
  case (20 E cell rest ctx)
  from "20.prems" obtain b where
      b: \<open>writeNode E (content cell) (writeText ctx ''<td>'') = Inr b\<close>
      and r: \<open>writeRowCells E rest (writeText b ''</td>'') = Inr ctx'\<close>
    by (auto split: sum.splits)
  have \<open>continues ctx b\<close>
    using "20.IH"(1) [OF b] by (auto dest!: continues_before)
  moreover have \<open>continues b ctx'\<close>
    using "20.IH"(2) [OF b r] by (auto dest!: continues_before)
  ultimately show ?case by (rule continues_trans)
qed simp_all


section \<open>Headings\<close>

text \<open>
  C6. For every heading, level 1 is written with the tag h2, levels 2 and 3 with h3 and
  every other level with h4; the heading's line is followed by exactly two newline
  characters, that is, by the end of its line and one blank line.
\<close>

theorem heading_tag_and_blank_line:
  \<open>writeNode E (Heading title level) ctx =
     (let tag = (if level = 1 then ''h2'' else if level = 2 \<or> level = 3 then ''h3'' else ''h4'');
          written = write_text (writer ctx)
            (''<'' @ tag @ '' class="doc-heading">'' @ getEscapedText E title @ ''</'' @ tag @ ''>'')
      in Inr (ctx\<lparr>writer := written\<lparr>buffer := buffer written @ [newline, newline]\<rparr>\<rparr>))\<close>
  by (simp add: headingTag_def writeLn_def writeLine_def writeChar_newline write_text_nil Let_def)

theorem heading_tag_and_blank_line_witness:
  \<open>rendered (writeNode exampleEmitter (Heading ''Remarks'' 1) exampleContext)
     = Inr (''<h2 class="doc-heading">Remarks</h2>\<newline>\<newline>'', []) \<and>
   rendered (writeNode exampleEmitter (Heading ''Remarks'' 3) exampleContext)
     = Inr (''<h3 class="doc-heading">Remarks</h3>\<newline>\<newline>'', []) \<and>
   rendered (writeNode exampleEmitter (Heading ''Remarks'' 5) exampleContext)
     = Inr (''<h4 class="doc-heading">Remarks</h4>\<newline>\<newline>'', [])\<close>
  using heading_tag_and_blank_line [of exampleEmitter \<open>''Remarks''\<close> 1 exampleContext]
    heading_tag_and_blank_line [of exampleEmitter \<open>''Remarks''\<close> 3 exampleContext]
    heading_tag_and_blank_line [of exampleEmitter \<open>''Remarks''\<close> 5 exampleContext]
  by (simp add: rendered_def exampleContext_def buffer_write_text_flat exampleEmitter_def
        backslashEscape_def)


section \<open>Soft breaks\<close>

text \<open>
  C8. A soft break writes the break marker if and only if something has been written
  and the last character written is not whitespace; otherwise it writes nothing.
\<close>

theorem soft_break_marker:
  \<open>writeNode E SoftBreak ctx =
     Inr (if buffer (writer ctx) \<noteq> [] \<and> \<not> isWhitespace (last (buffer (writer ctx)))
          then ctx\<lparr>writer := write_text (writer ctx) ''<br />''\<rparr>
          else ctx)\<close>
  by (simp add: matchesOptionalWhitespace_def peekLastCharacter_def writeText_def)

theorem soft_break_marker_witness:
  \<open>rendered (writeNode exampleEmitter SoftBreak exampleContext) = Inr ([], []) \<and>
   rendered (writeNode exampleEmitter SoftBreak (writeText exampleContext ''one '')) = Inr (''one '', []) \<and>
   rendered (writeNode exampleEmitter SoftBreak (writeText exampleContext ''one''))
     = Inr (''one<br />'', [])\<close>
  using soft_break_marker [of exampleEmitter exampleContext]
    soft_break_marker [of exampleEmitter \<open>writeText exampleContext ''one ''\<close>]
    soft_break_marker [of exampleEmitter \<open>writeText exampleContext ''one''\<close>]
  by (simp add: rendered_def exampleContext_def writeText_def buffer_write_text_flat isWhitespace_def)


section \<open>Code spans and fenced code\<close>

text \<open>What \<open>trim\<close> removes is whitespace at the two ends, and nothing is left of it there.\<close>

lemma trim_suffix:
  \<open>dropWhile isWhitespace code =
     trim code @ rev (takeWhile isWhitespace (rev (dropWhile isWhitespace code)))\<close>
proof -
  let ?rest = \<open>dropWhile isWhitespace code\<close>
  have a: \<open>rev (takeWhile isWhitespace (rev ?rest) @ dropWhile isWhitespace (rev ?rest))
      = rev (dropWhile isWhitespace (rev ?rest)) @ rev (takeWhile isWhitespace (rev ?rest))\<close>
    by (rule rev_append)
  have b: \<open>rev (takeWhile isWhitespace (rev ?rest) @ dropWhile isWhitespace (rev ?rest))
      = ?rest\<close>
    by simp
  from b [symmetric] a have \<open>?rest
      = rev (dropWhile isWhitespace (rev ?rest)) @ rev (takeWhile isWhitespace (rev ?rest))\<close>
    by (rule trans)
  then show ?thesis by (simp only: trim_def)
qed

lemma trim_decomposition:
  \<open>\<exists>before after. code = before @ trim code @ after
      \<and> list_all isWhitespace before \<and> list_all isWhitespace after\<close>
proof -
  let ?rest = \<open>dropWhile isWhitespace code\<close>
  let ?after = \<open>rev (takeWhile isWhitespace (rev ?rest))\<close>
  have \<open>code = takeWhile isWhitespace code @ ?rest\<close> by simp
  with trim_suffix [of code]
  have \<open>code = takeWhile isWhitespace code @ trim code @ ?after\<close> by simp
  moreover have \<open>list_all isWhitespace (takeWhile isWhitespace code)\<close>
    unfolding list_all_iff by (meson set_takeWhileD)
  moreover have \<open>list_all isWhitespace ?after\<close>
    unfolding list_all_iff set_rev by (meson set_takeWhileD)
  ultimately show ?thesis by blast
qed

lemma trim_ends:
  \<open>trim code = [] \<or> (\<not> isWhitespace (hd (trim code)) \<and> \<not> isWhitespace (last (trim code)))\<close>
proof (cases \<open>trim code = []\<close>)
  case True then show ?thesis by simp
next
  case False
  let ?rest = \<open>dropWhile isWhitespace code\<close>
  let ?r = \<open>dropWhile isWhitespace (rev ?rest)\<close>
  from False have r: \<open>?r \<noteq> []\<close> by (simp add: trim_def)
  then have \<open>\<not> isWhitespace (hd ?r)\<close> by (rule hd_dropWhile)
  then have l: \<open>\<not> isWhitespace (last (trim code))\<close>
    using r by (simp add: trim_def last_rev)
  from r have \<open>rev ?rest \<noteq> []\<close> by (metis dropWhile.simps(1))
  then have ne: \<open>?rest \<noteq> []\<close> by simp
  then have h: \<open>\<not> isWhitespace (hd ?rest)\<close> by (rule hd_dropWhile)
  from False trim_suffix [of code] have \<open>hd ?rest = hd (trim code)\<close> by (metis hd_append2)
  with h l show ?thesis by simp
qed

text \<open>
  C9. The text of a code span is written between its tags exactly as given, and the text
  of a fenced code block is written between its tags with the whitespace at its two ends
  removed; neither passes through the emitter's text escaping.
\<close>

theorem code_text_unescaped:
  \<open>writeNode E (CodeSpan code) ctx =
     Inr (ctx\<lparr>writer := write_text (writer ctx)
            (''<code class="doc-code-span language-javascript">'' @ code @ ''</code>'')\<rparr>) \<and>
   writeNode E (FencedCode code) ctx =
     Inr (ctx\<lparr>writer := write_text (ensureNewLine (writer ctx))
            (''<pre class="doc-fenced-code">\<newline><code class="language-javascript">\<newline>''
             @ trim code @ ''</code>\<newline></pre>\<newline>'')\<rparr>) \<and>
   (\<exists>before after. code = before @ trim code @ after
      \<and> list_all isWhitespace before \<and> list_all isWhitespace after) \<and>
   (trim code = [] \<or> (\<not> isWhitespace (hd (trim code)) \<and> \<not> isWhitespace (last (trim code))))\<close>
  using trim_decomposition [of code] trim_ends [of code]
  by (simp add: writeText_def writeLn_def onWriter_def writeLine_write_text write_text_append)

theorem code_text_unescaped_witness:
  \<open>rendered (writeNode exampleEmitter (CodeSpan '' a*b_c '') exampleContext)
     = Inr (''<code class="doc-code-span language-javascript"> a*b_c </code>'', []) \<and>
   rendered (writeNode exampleEmitter (FencedCode ''  x = a*b;\<newline>'') (writeText exampleContext ''See:''))
     = Inr (''See:\<newline><pre class="doc-fenced-code">\<newline><code class="language-javascript">\<newline>x = a*b;</code>\<newline></pre>\<newline>'', [])\<close>
  using code_text_unescaped [of exampleEmitter \<open>'' a*b_c ''\<close> exampleContext]
    code_text_unescaped [of exampleEmitter \<open>''  x = a*b;\<newline>''\<close> \<open>writeText exampleContext ''See:''\<close>]
  by (simp add: rendered_def exampleContext_def writeText_def buffer_write_text_flat trim_def
        isWhitespace_def ensureNewLine_def atLineStart_def writeChar_def)


section \<open>Emphasis spans\<close>





section \<open>The inside-table flag\<close>





section \<open>Tables\<close>


text \<open>
  After \<open>ensureSkippedLine\<close> the cursor is at column 0, and the text ends with a blank line
  when something had been written.
\<close>

lemma atLineStart_ensureSkippedLine: \<open>atLineStart (ensureSkippedLine w)\<close>
  by (simp add: ensureSkippedLine_def atLineStart_def writeChar_def)

lemma ensureSkippedLine_blank:
  \<open>buffer w \<noteq> [] \<Longrightarrow> endsWithBlankLine (buffer (ensureSkippedLine w))\<close>
proof -
  assume ne: \<open>buffer w \<noteq> []\<close>
  then obtain init c where s: \<open>buffer w = init @ [c]\<close> by (metis rev_exhaust)
  then have bl: \<open>butlast (buffer w) = init\<close> and la: \<open>last (buffer w) = c\<close> by simp_all
  show ?thesis
  proof (cases \<open>c = newline\<close>)
    case False
    with s show ?thesis
      by (simp add: ensureSkippedLine_def endsWithBlankLine_def writeChar_def)
  next
    case True
    show ?thesis
    proof (cases \<open>init = []\<close>)
      case True
      with s \<open>c = newline\<close> show ?thesis
        by (simp add: ensureSkippedLine_def endsWithBlankLine_def)
    next
      case False
      then obtain init' d where i: \<open>init = init' @ [d]\<close> by (metis rev_exhaust)
      with ne bl la \<open>c = newline\<close> have
        \<open>ensureSkippedLine w = (if d = newline then w else writeChar w newline)\<close>
        by (simp add: ensureSkippedLine_def)
      with s i \<open>c = newline\<close> show ?thesis
        by (simp add: endsWithBlankLine_def writeChar_def)
    qed
  qed
qed

text \<open>What the writer appends on one line, with the indentation written out.\<close>

lemma atLineStart_writeChar [simp]: \<open>atLineStart (writeChar w c) \<longleftrightarrow> c = newline\<close>
  by (simp add: atLineStart_def writeChar_def)

lemma indentText_fields [simp]:
  \<open>indentText (writeChar w c) = indentText w\<close>
  \<open>indentText (write_text w s) = indentText w\<close>
  \<open>indentText (writeLine w s) = indentText w\<close>
  \<open>indentText (ensureNewLine w) = indentText w\<close>
  \<open>indentText (ensureSkippedLine w) = indentText w\<close>
  by (simp_all add: indentText_def)

lemma continues_indentText:
  \<open>continues ctx ctx' \<Longrightarrow> indentText (writer ctx') = indentText (writer ctx)\<close>
  by (simp add: continues_def grows_def indentText_def)

lemma write_text_line:
  assumes \<open>s \<noteq> []\<close> and \<open>newline \<notin> set s\<close>
  shows \<open>buffer (write_text w s) = buffer w @ lineStartIndent w @ s\<close>
    and \<open>\<not> atLineStart (write_text w s)\<close>
proof -
  have \<open>buffer (write_text w s) = buffer w @ lineStartIndent w @ s \<and> \<not> atLineStart (write_text w s)\<close>
    using assms
  proof (induction s rule: rev_nonempty_induct)
    case (single c)
    then show ?case
      by (simp add: write_text_def writeChar_def lineStartIndent_def atLineStart_def)
  next
    case (snoc c s)
    then have b: \<open>buffer (write_text w s) = buffer w @ lineStartIndent w @ s\<close>
      and n: \<open>\<not> atLineStart (write_text w s)\<close> by simp_all
    from n have \<open>buffer (writeChar (write_text w s) c) = buffer (write_text w s) @ [c]\<close>
      by (simp add: writeChar_def)
    with b snoc.prems show ?case by (auto simp: write_text_def)
  qed
  then show \<open>buffer (write_text w s) = buffer w @ lineStartIndent w @ s\<close>
    and \<open>\<not> atLineStart (write_text w s)\<close> by simp_all
qed

lemma writeLine_line:
  assumes \<open>s \<noteq> []\<close> and \<open>newline \<notin> set s\<close>
  shows \<open>buffer (writeLine w s) = buffer w @ lineStartIndent w @ s @ [newline]\<close>
  using write_text_line(1) [OF assms, of w]
  by (simp add: writeLine_def buffer_writeChar_newline)

lemma writeLine_empty: \<open>buffer (writeLine w []) = buffer w @ [newline]\<close>
  by (simp add: writeLine_def write_text_nil buffer_writeChar_newline)

lemma atLineStart_writeLine [simp]: \<open>atLineStart (writeLine w s)\<close>
  by (simp add: writeLine_def)

lemma lineStartIndent_simps:
  \<open>atLineStart w \<Longrightarrow> lineStartIndent w = indentText w\<close>
  \<open>\<not> atLineStart w \<Longrightarrow> lineStartIndent w = []\<close>
  by (simp_all add: lineStartIndent_def)

lemma row_cells_layout:
  assumes \<open>writeRowCells E cs ctx = Inr ctx'\<close> and \<open>\<not> atLineStart (writer ctx)\<close>
  shows \<open>\<exists>outs. length outs = length cs \<and> \<not> atLineStart (writer ctx') \<and>
           indentText (writer ctx') = indentText (writer ctx) \<and>
           buffer (writer ctx') =
             buffer (writer ctx) @ concat (map (\<lambda>out. ''<td>'' @ out @ ''</td>'') outs)\<close>
  using assms
proof (induction cs arbitrary: ctx)
  case Nil
  then show ?case by simp
next
  case (Cons cell rest)
  let ?open = \<open>writeText ctx ''<td>''\<close>
  from Cons.prems(1) obtain ctx1 where
      c: \<open>writeNode E (content cell) ?open = Inr ctx1\<close>
      and r: \<open>writeRowCells E rest (writeText ctx1 ''</td>'') = Inr ctx'\<close>
    by (auto split: sum.splits)
  have o: \<open>buffer (writer ?open) = buffer (writer ctx) @ ''<td>''\<close>
    using Cons.prems(2) by (simp add: write_text_line lineStartIndent_simps)
  from continues_render(1) [OF c] obtain out where
      out: \<open>buffer (writer ctx1) = buffer (writer ?open) @ out\<close>
      and i1: \<open>indentText (writer ctx1) = indentText (writer ctx)\<close>
    by (auto simp: continues_def grows_def indentText_def)
  let ?close = \<open>writeText ctx1 ''</td>''\<close>
  have cl: \<open>buffer (writer ?close) = buffer (writer ctx1) @ lineStartIndent (writer ctx1) @ ''</td>''\<close>
    and ns: \<open>\<not> atLineStart (writer ?close)\<close>
    by (simp_all add: write_text_line)
  from Cons.IH [OF r ns] obtain outs where
      n: \<open>length outs = length rest\<close> and l: \<open>\<not> atLineStart (writer ctx')\<close>
      and i: \<open>indentText (writer ctx') = indentText (writer ?close)\<close>
      and b: \<open>buffer (writer ctx') = buffer (writer ?close)
                @ concat (map (\<lambda>out. ''<td>'' @ out @ ''</td>'') outs)\<close>
    by blast
  from b cl out o have \<open>buffer (writer ctx') = buffer (writer ctx)
      @ concat (map (\<lambda>out. ''<td>'' @ out @ ''</td>'')
          ((out @ lineStartIndent (writer ctx1)) # outs))\<close>
    by simp
  moreover from i i1 have \<open>indentText (writer ctx') = indentText (writer ctx)\<close> by simp
  ultimately show ?case using n l
    by (intro exI [of _ \<open>(out @ lineStartIndent (writer ctx1)) # outs\<close>]) simp
qed

lemma rows_layout:
  assumes \<open>writeRows E rows ctx = Inr ctx'\<close> and \<open>atLineStart (writer ctx)\<close>
  shows \<open>\<exists>outss. list_all2 (\<lambda>outs row. length outs = length (cells row)) outss rows \<and>
           atLineStart (writer ctx') \<and>
           indentText (writer ctx') = indentText (writer ctx) \<and>
           buffer (writer ctx') =
             buffer (writer ctx) @ concat (map (rowMarkup (indentText (writer ctx))) outss)\<close>
  using assms
proof (induction rows arbitrary: ctx)
  case Nil
  then show ?case by simp
next
  case (Cons row rows)
  let ?ind = \<open>indentText (writer ctx)\<close>
  let ?open = \<open>writeText ctx ''<tr>''\<close>
  from Cons.prems(1) obtain ctx1 where
      c: \<open>writeRowCells E (cells row) ?open = Inr ctx1\<close>
      and r: \<open>writeRows E rows (writeLn (writeLn ctx1 []) ''</tr>'') = Inr ctx'\<close>
    by (auto split: sum.splits)
  have o: \<open>buffer (writer ?open) = buffer (writer ctx) @ ?ind @ ''<tr>''\<close>
    and ons: \<open>\<not> atLineStart (writer ?open)\<close>
    using Cons.prems(2) by (simp_all add: write_text_line lineStartIndent_simps)
  from row_cells_layout [OF c ons] obtain outs where
      n: \<open>length outs = length (cells row)\<close>
      and i1: \<open>indentText (writer ctx1) = ?ind\<close>
      and b1: \<open>buffer (writer ctx1) = buffer (writer ?open)
                 @ concat (map (\<lambda>out. ''<td>'' @ out @ ''</td>'') outs)\<close>
    by auto
  let ?close = \<open>writeLn (writeLn ctx1 []) ''</tr>''\<close>
  have cl: \<open>buffer (writer ?close) = buffer (writer ctx1) @ newline # ?ind @ ''</tr>\<newline>''\<close>
    using i1 by (simp add: writeLine_line writeLine_empty lineStartIndent_simps)
  have cs: \<open>atLineStart (writer ?close)\<close> and ci: \<open>indentText (writer ?close) = ?ind\<close>
    using i1 by simp_all
  from Cons.IH [OF r cs] obtain outss where
      a: \<open>list_all2 (\<lambda>outs row. length outs = length (cells row)) outss rows\<close>
      and l: \<open>atLineStart (writer ctx')\<close>
      and i: \<open>indentText (writer ctx') = indentText (writer ?close)\<close>
      and b: \<open>buffer (writer ctx') = buffer (writer ?close)
                @ concat (map (rowMarkup (indentText (writer ?close))) outss)\<close>
    by blast
  from b cl b1 o ci have \<open>buffer (writer ctx') = buffer (writer ctx)
      @ concat (map (rowMarkup ?ind) (outs # outss))\<close>
    by (simp add: rowMarkup_def)
  moreover from i ci have \<open>indentText (writer ctx') = ?ind\<close> by simp
  ultimately show ?case using n a l
    by (intro exI [of _ \<open>outs # outss\<close>]) simp
qed

lemma header_cells_layout:
  assumes \<open>writeHeaderCells E header i k ctx = Inr ctx'\<close>
  shows \<open>\<exists>outs. length outs = k - i \<and>
           indentText (writer ctx') = indentText (writer ctx) \<and>
           (if i < k then \<not> atLineStart (writer ctx') else ctx' = ctx) \<and>
           buffer (writer ctx') =
             buffer (writer ctx) @ (if i < k then lineStartIndent (writer ctx) else [])
             @ headerCellsMarkup outs \<and>
           (\<forall>j < k - i. (case header of None \<Rightarrow> True | Some h \<Rightarrow> length (cells h) \<le> i + j)
              \<longrightarrow> outs ! j = [])\<close>
  using assms
proof (induction \<open>k - i\<close> arbitrary: i ctx)
  case 0
  then show ?case by (simp add: writeHeaderCells.simps headerCellsMarkup_def)
next
  case (Suc d)
  then have lt: \<open>i < k\<close> by simp
  let ?open = \<open>writeText ctx ''<th>''\<close>
  let ?first = \<open>case header of None \<Rightarrow> Inr ?open
              | Some h \<Rightarrow> if i < length (cells h)
                  then writeNode E (content (cells h ! i)) ?open
                  else Inr ?open\<close>
  from Suc.prems lt obtain ctx1 where
      c: \<open>?first = Inr ctx1\<close>
      and r: \<open>writeHeaderCells E header (Suc i) k (writeText ctx1 ''</th>'') = Inr ctx'\<close>
    by (subst (asm) writeHeaderCells.simps) (auto split: sum.splits)
  have o: \<open>buffer (writer ?open) = buffer (writer ctx) @ lineStartIndent (writer ctx) @ ''<th>''\<close>
    and ons: \<open>\<not> atLineStart (writer ?open)\<close>
    by (simp_all add: write_text_line)
  have \<open>\<exists>out. buffer (writer ctx1) @ lineStartIndent (writer ctx1) = buffer (writer ?open) @ out
      \<and> indentText (writer ctx1) = indentText (writer ctx)
      \<and> ((case header of None \<Rightarrow> True | Some h \<Rightarrow> length (cells h) \<le> i) \<longrightarrow> out = [])\<close>
  proof (cases \<open>case header of None \<Rightarrow> True | Some h \<Rightarrow> length (cells h) \<le> i\<close>)
    case True
    with c have \<open>ctx1 = ?open\<close>
      by (auto split: option.splits if_splits)
    with ons show ?thesis by (simp add: lineStartIndent_simps)
  next
    case False
    with c obtain h where \<open>writeNode E (content (cells h ! i)) ?open = Inr ctx1\<close>
      by (auto split: option.splits if_splits)
    from continues_render(1) [OF this] obtain out where
        \<open>buffer (writer ctx1) = buffer (writer ?open) @ out\<close>
        \<open>indentText (writer ctx1) = indentText (writer ctx)\<close>
      by (auto simp: continues_def grows_def indentText_def)
    with False show ?thesis by simp
  qed
  then obtain out where
      out: \<open>buffer (writer ctx1) @ lineStartIndent (writer ctx1) = buffer (writer ?open) @ out\<close>
      and i1: \<open>indentText (writer ctx1) = indentText (writer ctx)\<close>
      and e: \<open>(case header of None \<Rightarrow> True | Some h \<Rightarrow> length (cells h) \<le> i) \<longrightarrow> out = []\<close>
    by blast
  let ?close = \<open>writeText ctx1 ''</th>''\<close>
  have cl: \<open>buffer (writer ?close) = buffer (writer ctx1) @ lineStartIndent (writer ctx1) @ ''</th>''\<close>
    and cns: \<open>\<not> atLineStart (writer ?close)\<close>
    by (simp_all add: write_text_line)
  from cl out o have cl': \<open>buffer (writer ?close) =
      buffer (writer ctx) @ lineStartIndent (writer ctx) @ ''<th>'' @ out @ ''</th>''\<close>
    by (metis append.assoc)
  from Suc.hyps(2) have d: \<open>d = k - Suc i\<close> by simp
  from Suc.hyps(1) [OF d r] obtain outs where
      n: \<open>length outs = k - Suc i\<close>
      and i': \<open>indentText (writer ctx') = indentText (writer ?close)\<close>
      and s: \<open>if Suc i < k then \<not> atLineStart (writer ctx') else ctx' = ?close\<close>
      and b: \<open>buffer (writer ctx') = buffer (writer ?close)
                @ (if Suc i < k then lineStartIndent (writer ?close) else [])
                @ headerCellsMarkup outs\<close>
      and m: \<open>\<forall>j < k - Suc i.
                (case header of None \<Rightarrow> True | Some h \<Rightarrow> length (cells h) \<le> Suc i + j)
                \<longrightarrow> outs ! j = []\<close>
    by blast
  from b cns have \<open>buffer (writer ctx') = buffer (writer ?close) @ headerCellsMarkup outs\<close>
    by (simp add: lineStartIndent_simps)
  with cl' have b': \<open>buffer (writer ctx') = buffer (writer ctx)
      @ lineStartIndent (writer ctx) @ headerCellsMarkup (out # outs)\<close>
    by (simp add: headerCellsMarkup_def)
  from s cns have s': \<open>\<not> atLineStart (writer ctx')\<close> by (auto split: if_splits)
  from i' i1 have i'': \<open>indentText (writer ctx') = indentText (writer ctx)\<close> by simp
  have m': \<open>(out # outs) ! j = []\<close>
    if \<open>j < k - i\<close> and \<open>case header of None \<Rightarrow> True | Some h \<Rightarrow> length (cells h) \<le> i + j\<close>
    for j
  proof (cases j)
    case 0
    with that e show ?thesis by (auto split: option.splits)
  next
    case (Suc j')
    with that m show ?thesis by (auto split: option.splits)
  qed
  from n lt have \<open>length (out # outs) = k - i\<close> by simp
  with lt i'' s' b' m' show ?case
    by (intro exI [of _ \<open>out # outs\<close>]) simp
qed

lemma table_layout:
  assumes \<open>writeNode E (Table header rows) ctx = Inr ctx'\<close>
  shows \<open>\<exists>hs rs.
     length hs = tableColumnCount header rows \<and>
     (\<forall>j < tableColumnCount header rows.
        (case header of None \<Rightarrow> True | Some h \<Rightarrow> length (cells h) \<le> j) \<longrightarrow> hs ! j = []) \<and>
     list_all2 (\<lambda>outs row. length outs = length (cells row)) rs rows \<and>
     buffer (writer ctx') =
       buffer (ensureSkippedLine (writer ctx)) @ tableMarkup (indentText (writer ctx)) hs rs\<close>
proof -
  let ?ind = \<open>indentText (writer ctx)\<close>
  let ?n = \<open>tableColumnCount header rows\<close>
  let ?ctx1 = \<open>(onWriter ensureSkippedLine ctx)\<lparr>insideTable := True\<rparr>\<close>
  let ?ctx2 = \<open>writeLn (writeLn (writeLn ?ctx1 ''<table class="doc-table">'') ''<thead>'') ''<tr>''\<close>
  from assms obtain ctx3 ctx4 where
      h: \<open>writeHeaderCells E header 0 ?n ?ctx2 = Inr ctx3\<close>
      and r: \<open>writeRows E rows (writeLn (writeLn (writeLn ctx3 []) ''</tr>'') ''</thead>'') = Inr ctx4\<close>
      and c: \<open>ctx' = (writeLn ctx4 ''</table>'')\<lparr>insideTable := False\<rparr>\<close>
    by (auto simp: Let_def split: sum.splits)
  have b2: \<open>buffer (writer ?ctx2) = buffer (ensureSkippedLine (writer ctx))
      @ ?ind @ ''<table class="doc-table">\<newline>'' @ ?ind @ ''<thead>\<newline>'' @ ?ind @ ''<tr>\<newline>''\<close>
    by (simp add: writeLine_line lineStartIndent_simps atLineStart_ensureSkippedLine)
  have s2: \<open>atLineStart (writer ?ctx2)\<close> and i2: \<open>indentText (writer ?ctx2) = ?ind\<close>
    by simp_all
  from header_cells_layout [OF h] obtain hs where
      hn: \<open>length hs = ?n\<close>
      and i3: \<open>indentText (writer ctx3) = indentText (writer ?ctx2)\<close>
      and b3: \<open>buffer (writer ctx3) = buffer (writer ?ctx2)
                @ (if 0 < ?n then lineStartIndent (writer ?ctx2) else []) @ headerCellsMarkup hs\<close>
      and hm: \<open>\<forall>j < ?n. (case header of None \<Rightarrow> True | Some h \<Rightarrow> length (cells h) \<le> j)
                \<longrightarrow> hs ! j = []\<close>
    by (auto cong: option.case_cong)
  from hn have e: \<open>(0 < ?n) = (hs \<noteq> [])\<close> by (metis length_greater_0_conv)
  let ?ctx3' = \<open>writeLn (writeLn (writeLn ctx3 []) ''</tr>'') ''</thead>''\<close>
  from i3 i2 have i3': \<open>indentText (writer ctx3) = ?ind\<close> by simp
  then have b3': \<open>buffer (writer ?ctx3') = buffer (writer ctx3)
      @ newline # ?ind @ ''</tr>\<newline>'' @ ?ind @ ''</thead>\<newline>''\<close>
    by (simp add: writeLine_line writeLine_empty lineStartIndent_simps)
  have s3: \<open>atLineStart (writer ?ctx3')\<close> by simp
  from rows_layout [OF r s3] obtain rs where
      ra: \<open>list_all2 (\<lambda>outs row. length outs = length (cells row)) rs rows\<close>
      and s4: \<open>atLineStart (writer ctx4)\<close>
      and i4: \<open>indentText (writer ctx4) = indentText (writer ?ctx3')\<close>
      and b4: \<open>buffer (writer ctx4) = buffer (writer ?ctx3')
                @ concat (map (rowMarkup (indentText (writer ?ctx3'))) rs)\<close>
    by blast
  from i4 i3' have i4': \<open>indentText (writer ctx4) = ?ind\<close> by simp
  from s4 i4' have b5: \<open>buffer (writer ctx') = buffer (writer ctx4) @ ?ind @ ''</table>\<newline>''\<close>
    unfolding c by (simp add: writeLine_line lineStartIndent_simps)
  from i3' have i3'': \<open>indentText (writer ?ctx3') = ?ind\<close> by simp
  have \<open>buffer (writer ctx') =
       buffer (ensureSkippedLine (writer ctx)) @ tableMarkup ?ind hs rs\<close>
    unfolding b5 b4 i3'' b3' b3 b2 tableMarkup_def
    using s2 i2 e by (simp add: lineStartIndent_simps)
  with hn hm ra show ?thesis by blast
qed

text \<open>A table fails only where the content of one of its cells does.\<close>

lemma row_cells_ok:
  assumes \<open>\<And>cell c. cell \<in> set cs \<Longrightarrow> \<exists>c'. writeNode E (content cell) c = Inr c'\<close>
  shows \<open>\<exists>ctx'. writeRowCells E cs ctx = Inr ctx'\<close>
  using assms
proof (induction cs arbitrary: ctx)
  case Nil
  show ?case by simp
next
  case (Cons cell rest)
  from Cons.prems [of cell] obtain c1 where
      \<open>writeNode E (content cell) (writeText ctx ''<td>'') = Inr c1\<close>
    by auto
  moreover have \<open>\<exists>c2. writeRowCells E rest (writeText c1 ''</td>'') = Inr c2\<close>
  proof (rule Cons.IH)
    fix x c
    assume \<open>x \<in> set rest\<close>
    then show \<open>\<exists>c'. writeNode E (content x) c = Inr c'\<close>
      using Cons.prems [of x c] by simp
  qed
  then obtain c2 where \<open>writeRowCells E rest (writeText c1 ''</td>'') = Inr c2\<close>
    by blast
  ultimately show ?case by simp
qed

lemma rows_ok:
  assumes \<open>\<And>row cell c. row \<in> set rows \<Longrightarrow> cell \<in> set (cells row)
              \<Longrightarrow> \<exists>c'. writeNode E (content cell) c = Inr c'\<close>
  shows \<open>\<exists>ctx'. writeRows E rows ctx = Inr ctx'\<close>
  using assms
proof (induction rows arbitrary: ctx)
  case Nil
  show ?case by simp
next
  case (Cons row rows)
  have \<open>\<exists>c1. writeRowCells E (cells row) (writeText ctx ''<tr>'') = Inr c1\<close>
  proof (rule row_cells_ok)
    fix cell c
    assume \<open>cell \<in> set (cells row)\<close>
    then show \<open>\<exists>c'. writeNode E (content cell) c = Inr c'\<close>
      using Cons.prems [of row cell c] by simp
  qed
  then obtain c1 where \<open>writeRowCells E (cells row) (writeText ctx ''<tr>'') = Inr c1\<close> by blast
  moreover have \<open>\<exists>c2. writeRows E rows (writeLn (writeLn c1 []) ''</tr>'') = Inr c2\<close>
  proof (rule Cons.IH)
    fix r cell c
    assume \<open>r \<in> set rows\<close> and \<open>cell \<in> set (cells r)\<close>
    then show \<open>\<exists>c'. writeNode E (content cell) c = Inr c'\<close>
      using Cons.prems [of r cell c] by simp
  qed
  then obtain c2 where \<open>writeRows E rows (writeLn (writeLn c1 []) ''</tr>'') = Inr c2\<close>
    by blast
  ultimately show ?case by simp
qed

lemma header_cells_ok:
  assumes \<open>\<And>h cell c. header = Some h \<Longrightarrow> cell \<in> set (cells h)
              \<Longrightarrow> \<exists>c'. writeNode E (content cell) c = Inr c'\<close>
  shows \<open>\<exists>ctx'. writeHeaderCells E header i k ctx = Inr ctx'\<close>
proof (induction \<open>k - i\<close> arbitrary: i ctx)
  case 0
  then show ?case by (simp add: writeHeaderCells.simps)
next
  case (Suc d)
  then have lt: \<open>i < k\<close> and d: \<open>d = k - Suc i\<close> by simp_all
  let ?first = \<open>case header of None \<Rightarrow> Inr (writeText ctx ''<th>'')
              | Some h \<Rightarrow> if i < length (cells h)
                  then writeNode E (content (cells h ! i)) (writeText ctx ''<th>'')
                  else Inr (writeText ctx ''<th>'')\<close>
  have \<open>\<exists>c1. ?first = Inr c1\<close>
    using assms by (auto split: option.splits)
  then obtain c1 where f: \<open>?first = Inr c1\<close> by blast
  from Suc.hyps(1) [OF d] obtain c2 where
      \<open>writeHeaderCells E header (Suc i) k (writeText c1 ''</th>'') = Inr c2\<close> by blast
  with f lt show ?case
    by (subst writeHeaderCells.simps) simp
qed

lemma table_ok:
  assumes \<open>\<And>h cell c. header = Some h \<Longrightarrow> cell \<in> set (cells h)
              \<Longrightarrow> \<exists>c'. writeNode E (content cell) c = Inr c'\<close>
    and \<open>\<And>row cell c. row \<in> set rows \<Longrightarrow> cell \<in> set (cells row)
              \<Longrightarrow> \<exists>c'. writeNode E (content cell) c = Inr c'\<close>
  shows \<open>\<exists>ctx'. writeNode E (Table header rows) ctx = Inr ctx'\<close>
proof -
  let ?ctx2 = \<open>writeLn (writeLn (writeLn ((onWriter ensureSkippedLine ctx)\<lparr>insideTable := True\<rparr>)
               ''<table class="doc-table">'') ''<thead>'') ''<tr>''\<close>
  from header_cells_ok [of header E 0 \<open>tableColumnCount header rows\<close> ?ctx2] assms(1)
  obtain c3 where
      h: \<open>writeHeaderCells E header 0 (tableColumnCount header rows) ?ctx2 = Inr c3\<close> by blast
  from rows_ok [of rows E \<open>writeLn (writeLn (writeLn c3 []) ''</tr>'') ''</thead>''\<close>] assms(2)
  obtain c4 where
      \<open>writeRows E rows (writeLn (writeLn (writeLn c3 []) ''</tr>'') ''</thead>'') = Inr c4\<close>
    by blast
  with h show ?thesis by (simp add: Let_def)
qed



text \<open>
  C4. For every table that has been rendered: when something had been written before
  the table, the text before the table ends with a blank line, and the table's markup
  follows it directly; and that markup always has the header section, with as many header
  cells as the column count, all of them empty when the table has no logical header.
\<close>

theorem table_header_and_blank_line:
  assumes \<open>writeNode E (Table header rows) ctx = Inr ctx'\<close>
  shows \<open>(buffer (writer ctx) \<noteq> [] \<longrightarrow>
            endsWithBlankLine (buffer (ensureSkippedLine (writer ctx)))) \<and>
    (\<exists>hs rest.
       length hs = tableColumnCount header rows \<and>
       (header = None \<longrightarrow> hs = replicate (tableColumnCount header rows) []) \<and>
       buffer (writer ctx') =
         buffer (ensureSkippedLine (writer ctx))
         @ indentText (writer ctx) @ ''<table class="doc-table">\<newline>''
         @ indentText (writer ctx) @ ''<thead>\<newline>''
         @ indentText (writer ctx) @ ''<tr>\<newline>''
         @ (if hs = [] then [] else indentText (writer ctx)) @ headerCellsMarkup hs
         @ newline # indentText (writer ctx) @ ''</tr>\<newline>''
         @ indentText (writer ctx) @ ''</thead>\<newline>''
         @ rest)\<close>
proof (intro conjI impI)
  assume \<open>buffer (writer ctx) \<noteq> []\<close>
  then show \<open>endsWithBlankLine (buffer (ensureSkippedLine (writer ctx)))\<close>
    by (rule ensureSkippedLine_blank)
next
  let ?n = \<open>tableColumnCount header rows\<close>
  from table_layout [OF assms] obtain hs rs where
      hn: \<open>length hs = ?n\<close>
      and hm: \<open>\<forall>j < ?n. (case header of None \<Rightarrow> True | Some h \<Rightarrow> length (cells h) \<le> j)
                \<longrightarrow> hs ! j = []\<close>
      and b: \<open>buffer (writer ctx') =
         buffer (ensureSkippedLine (writer ctx)) @ tableMarkup (indentText (writer ctx)) hs rs\<close>
    by blast
  have \<open>hs = replicate ?n []\<close> if \<open>header = None\<close>
    using hn hm that by (intro nth_equalityI) simp_all
  with hn b show \<open>\<exists>hs rest.
       length hs = ?n \<and>
       (header = None \<longrightarrow> hs = replicate ?n []) \<and>
       buffer (writer ctx') =
         buffer (ensureSkippedLine (writer ctx))
         @ indentText (writer ctx) @ ''<table class="doc-table">\<newline>''
         @ indentText (writer ctx) @ ''<thead>\<newline>''
         @ indentText (writer ctx) @ ''<tr>\<newline>''
         @ (if hs = [] then [] else indentText (writer ctx)) @ headerCellsMarkup hs
         @ newline # indentText (writer ctx) @ ''</tr>\<newline>''
         @ indentText (writer ctx) @ ''</thead>\<newline>''
         @ rest\<close>
    unfolding tableMarkup_def
    by (intro exI [of _ hs]
          exI [of _ \<open>concat (map (rowMarkup (indentText (writer ctx))) rs)
                     @ indentText (writer ctx) @ ''</table>\<newline>''\<close>]) simp
qed

theorem table_header_and_blank_line_witness:
  \<open>\<exists>ctx' rest.
     writeNode exampleEmitter (Table None exampleRows) (writeText exampleContext ''Intro'')
       = Inr ctx' \<and>
     endsWithBlankLine ''Intro\<newline>\<newline>'' \<and>
     buffer (writer ctx') =
       ''Intro\<newline>\<newline><table class="doc-table">\<newline><thead>\<newline><tr>\<newline><th></th><th></th>\<newline></tr>\<newline></thead>\<newline>''
       @ rest\<close>
proof -
  let ?ctx = \<open>writeText exampleContext ''Intro''\<close>
  have w: \<open>writer ?ctx = \<lparr>buffer = ''Intro'', indentLevel = 0, indentPrefix = ''  ''\<rparr>\<close>
    by (simp add: exampleContext_def write_text_def writeChar_def atLineStart_def indentText_def)
  have s: \<open>ensureSkippedLine (writer ?ctx)
      = \<lparr>buffer = ''Intro\<newline>\<newline>'', indentLevel = 0, indentPrefix = ''  ''\<rparr>\<close>
    unfolding w by (simp add: ensureSkippedLine_def writeChar_def)
  have i: \<open>indentText (writer ?ctx) = []\<close>
    unfolding w by (simp add: indentText_def)
  have n: \<open>tableColumnCount None exampleRows = 2\<close>
    by (simp add: tableColumnCount_def exampleRows_def)
  have \<open>\<exists>ctx'. writeNode exampleEmitter (Table None exampleRows) ?ctx = Inr ctx'\<close>
    by (rule table_ok) (auto simp: exampleRows_def)
  then obtain ctx' where
      r: \<open>writeNode exampleEmitter (Table None exampleRows) ?ctx = Inr ctx'\<close> by blast
  note inst = table_header_and_blank_line [OF r]
  from inst have b: \<open>endsWithBlankLine (buffer (ensureSkippedLine (writer ?ctx)))\<close>
    unfolding w by simp
  from inst obtain hs rest where
      hs: \<open>hs = replicate (tableColumnCount None exampleRows) []\<close>
      and o: \<open>buffer (writer ctx') =
         buffer (ensureSkippedLine (writer ?ctx))
         @ indentText (writer ?ctx) @ ''<table class="doc-table">\<newline>''
         @ indentText (writer ?ctx) @ ''<thead>\<newline>''
         @ indentText (writer ?ctx) @ ''<tr>\<newline>''
         @ (if hs = [] then [] else indentText (writer ?ctx)) @ headerCellsMarkup hs
         @ newline # indentText (writer ?ctx) @ ''</tr>\<newline>''
         @ indentText (writer ?ctx) @ ''</thead>\<newline>''
         @ rest\<close>
    by blast
  from o have o': \<open>buffer (writer ctx') =
       ''Intro\<newline>\<newline><table class="doc-table">\<newline><thead>\<newline><tr>\<newline><th></th><th></th>\<newline></tr>\<newline></thead>\<newline>''
       @ rest\<close>
    unfolding i s hs n by (simp add: headerCellsMarkup_def numeral_2_eq_2)
  from b have b': \<open>endsWithBlankLine ''Intro\<newline>\<newline>''\<close>
    unfolding s by simp
  show ?thesis
    by (rule exI [of _ ctx'], rule exI [of _ rest]) (intro conjI r b' o')
qed

end
